theory Spec2Isabelle
  imports Main "HOL-Library.AList" "HOL-Library.Multiset"
begin

section \<open>QueueService: data model\<close>

text \<open>
  The job scheduler of \<^verbatim>\<open>src/services/QueueService.ts\<close>. JavaScript numbers are
  modelled as \<open>int\<close> (the scheduler only counts, compares and multiplies them), an optional
  field as an \<open>option\<close>, a \<^verbatim>\<open>Map\<close> as an association list in insertion order
  (\<open>AList.update\<close> overwrites in place or appends, as \<^verbatim>\<open>Map.set\<close> does), a
  \<^verbatim>\<open>Set\<close> as a set.
\<close>

datatype JobStatus = PENDING | PROCESSING | COMPLETED | FAILED | RETRYING

datatype JobPriority = LOW | NORMAL | HIGH | CRITICAL

text \<open>The numeric value of each member of the enum \<^verbatim>\<open>JobPriority\<close>.\<close>

fun priority_value :: "JobPriority \<Rightarrow> int" where
  "priority_value LOW = 0"
| "priority_value NORMAL = 1"
| "priority_value HIGH = 2"
| "priority_value CRITICAL = 3"

record 'd Job =
  id_job :: string
  type_job :: string
  data_job :: 'd
  priority :: JobPriority
  status :: JobStatus
  attempts :: int
  maxAttempts :: int
  createdAt :: int
  updatedAt :: int
  processedAt :: "int option"
  error :: "string option"

text \<open>
  What a processor invocation does once it settles: the promise resolves, or it rejects with
  a thrown value, which is an \<^verbatim>\<open>Error\<close> carrying a message or anything else.
\<close>

datatype thrown = ErrorObject string | NonError

datatype outcome = Resolved | Rejected thrown

type_synonym 'd JobProcessor = "'d Job \<Rightarrow> outcome"

text \<open>\<^verbatim>\<open>QueueConfig\<close> (every field optional) and \<^verbatim>\<open>Required<QueueConfig>\<close>.\<close>

record QueueConfig =
  maxConcurrent_opt :: "int option"
  retryAttempts_opt :: "int option"
  retryDelay_opt :: "int option"
  processInterval_opt :: "int option"

record RequiredQueueConfig =
  maxConcurrent :: int
  retryAttempts :: int
  retryDelay :: int
  processInterval :: int

text \<open>
  The state of a \<^verbatim>\<open>QueueService\<close>. Besides the four containers of the class it
  holds what the JavaScript runtime holds for it: the processor invocations that have been
  started and not yet settled (\<open>awaiting\<close>: the job of the suspended \<^verbatim>\<open>processJob\<close>
  and what its promise will settle to), the \<^verbatim>\<open>setTimeout\<close> callbacks not yet fired
  (\<open>timers\<close>: the job of the closure and the delay), and the events emitted so far, each
  with the job as it was when emitted.

  Jobs are JavaScript objects shared by reference. Here they are values, and a job that is
  changed while the active map refers to it is written back there (\<open>write_back\<close>); a job
  is found in the active map by its id, which \<^verbatim>\<open>generateJobId\<close> makes unique.
\<close>

record 'd QueueService =
  queues :: "(string \<times> 'd Job list) list"
  processors :: "string \<rightharpoonup> 'd JobProcessor"
  processing :: "string set"
  activeJobs :: "(string \<times> 'd Job) list"
  config :: RequiredQueueConfig
  awaiting :: "('d Job \<times> outcome) list"
  timers :: "('d Job \<times> int) list"
  emitted :: "(string \<times> 'd Job) list"

section \<open>QueueService: operations\<close>

text \<open>\<^verbatim>\<open>v || d\<close> on an optional number: \<^verbatim>\<open>undefined\<close> and \<open>0\<close> are falsy.\<close>

definition or_default :: "int option \<Rightarrow> int \<Rightarrow> int" where
  "or_default v d = (case v of None \<Rightarrow> d | Some n \<Rightarrow> if n = 0 then d else n)"

definition constructor :: "QueueConfig \<Rightarrow> 'd QueueService" where
  "constructor cfg =
     \<lparr> queues = [], processors = Map.empty, processing = {}, activeJobs = [],
       config = \<lparr> maxConcurrent = or_default (maxConcurrent_opt cfg) 5,
                  retryAttempts = or_default (retryAttempts_opt cfg) 3,
                  retryDelay = or_default (retryDelay_opt cfg) 1000,
                  processInterval = or_default (processInterval_opt cfg) 100 \<rparr>,
       awaiting = [], timers = [], emitted = [] \<rparr>"

definition registerProcessor :: "string \<Rightarrow> 'd JobProcessor \<Rightarrow> 'd QueueService \<Rightarrow> 'd QueueService" where
  "registerProcessor ty p s = s\<lparr>processors := (processors s)(ty \<mapsto> p)\<rparr>"

definition emit :: "string \<Rightarrow> 'd Job \<Rightarrow> 'd QueueService \<Rightarrow> 'd QueueService" where
  "emit name job s = s\<lparr>emitted := emitted s @ [(name, job)]\<rparr>"

text \<open>
  \<^verbatim>\<open>queue.sort((a, b) => b.priority - a.priority)\<close>: a stable sort, greatest priority
  first.
\<close>

definition sort_queue :: "'d Job list \<Rightarrow> 'd Job list" where
  "sort_queue q = sort_key (\<lambda>j. - priority_value (priority j)) q"

text \<open>\<^verbatim>\<open>queue.push(job); queue.sort(...)\<close> on the queue of one type.\<close>

definition push_sorted :: "'d Job \<Rightarrow> 'd Job list \<Rightarrow> 'd Job list" where
  "push_sorted job q = sort_queue (q @ [job])"

text \<open>
  \<^verbatim>\<open>addJob\<close>; the id (\<^verbatim>\<open>generateJobId()\<close>) and the time (\<^verbatim>\<open>Date.now()\<close>)
  come from the environment. It returns the id.
\<close>

definition new_job :: "string \<Rightarrow> 'd \<Rightarrow> JobPriority \<Rightarrow> string \<Rightarrow> int \<Rightarrow> 'd QueueService \<Rightarrow> 'd Job" where
  "new_job ty d pr jobId now s =
     \<lparr> id_job = jobId, type_job = ty, data_job = d, priority = pr, status = PENDING,
       attempts = 0, maxAttempts = retryAttempts (config s), createdAt = now,
       updatedAt = now, processedAt = None, error = None \<rparr>"

definition addJob :: "string \<Rightarrow> 'd \<Rightarrow> JobPriority \<Rightarrow> string \<Rightarrow> int \<Rightarrow> 'd QueueService \<Rightarrow> string \<times> 'd QueueService" where
  "addJob ty d pr jobId now s =
     (let job = new_job ty d pr jobId now s;
          qs = (if map_of (queues s) ty = None then queues s @ [(ty, [])] else queues s);
          queue = (case map_of qs ty of None \<Rightarrow> [] | Some q \<Rightarrow> q);
          s1 = s\<lparr>queues := AList.update ty (push_sorted job queue) qs\<rparr>
      in (jobId, emit ''job:added'' job s1))"

text \<open>\<^verbatim>\<open>getJobStatus\<close>: the active map first, then every queue in order.\<close>

fun find_in_queues :: "string \<Rightarrow> (string \<times> 'd Job list) list \<Rightarrow> 'd Job option" where
  "find_in_queues jobId [] = None"
| "find_in_queues jobId ((ty, q) # rest) =
     (case find (\<lambda>j. id_job j = jobId) q of
        Some job \<Rightarrow> Some job
      | None \<Rightarrow> find_in_queues jobId rest)"

definition getJobStatus :: "string \<Rightarrow> 'd QueueService \<Rightarrow> 'd Job option" where
  "getJobStatus jobId s =
     (case map_of (activeJobs s) jobId of
        Some job \<Rightarrow> Some job
      | None \<Rightarrow> find_in_queues jobId (queues s))"

text \<open>
  The loop of \<^verbatim>\<open>getNextJob\<close> over the entries of \<^verbatim>\<open>this.queues\<close>; the accumulator
  is \<^verbatim>\<open>(highestPriorityJob, highestPriority)\<close>.
\<close>

fun getNextJob_loop ::
  "string set \<Rightarrow> (string \<times> 'd Job list) list \<Rightarrow> 'd Job option \<times> int \<Rightarrow> 'd Job option \<times> int" where
  "getNextJob_loop pr [] acc = acc"
| "getNextJob_loop pr ((ty, queue) # rest) (highestPriorityJob, highestPriority) =
     (case queue of
        [] \<Rightarrow> getNextJob_loop pr rest (highestPriorityJob, highestPriority)
      | job # _ \<Rightarrow>
          if ty \<in> pr then getNextJob_loop pr rest (highestPriorityJob, highestPriority)
          else if priority_value (priority job) > highestPriority
          then getNextJob_loop pr rest (Some job, priority_value (priority job))
          else getNextJob_loop pr rest (highestPriorityJob, highestPriority))"

definition getNextJob :: "'d QueueService \<Rightarrow> 'd Job option" where
  "getNextJob s = fst (getNextJob_loop (processing s) (queues s) (None, - 1))"

text \<open>
  \<^verbatim>\<open>removeJobFromQueue\<close>: \<^verbatim>\<open>findIndex\<close> by id and \<^verbatim>\<open>splice\<close> take the first
  job of the queue with that id away.
\<close>

fun remove_by_id :: "string \<Rightarrow> 'd Job list \<Rightarrow> 'd Job list" where
  "remove_by_id jobId [] = []"
| "remove_by_id jobId (j # js) = (if id_job j = jobId then js else j # remove_by_id jobId js)"

definition removeJobFromQueue :: "'d Job \<Rightarrow> 'd QueueService \<Rightarrow> 'd QueueService" where
  "removeJobFromQueue job s =
     (case map_of (queues s) (type_job job) of
        None \<Rightarrow> s
      | Some queue \<Rightarrow>
          s\<lparr>queues := AList.update (type_job job) (remove_by_id (id_job job) queue) (queues s)\<rparr>)"

text \<open>A change of a job object that the active map refers to, seen through the map.\<close>

definition write_back :: "'d Job \<Rightarrow> (string \<times> 'd Job) list \<Rightarrow> (string \<times> 'd Job) list" where
  "write_back job al = map (\<lambda>(k, v). if k = id_job job then (k, job) else (k, v)) al"

text \<open>
  \<^verbatim>\<open>processJob\<close> up to \<^verbatim>\<open>await processor(job)\<close>: the processor is called and the
  function is suspended until the promise settles.
\<close>

definition processJob_begin :: "int \<Rightarrow> 'd Job \<Rightarrow> 'd JobProcessor \<Rightarrow> 'd QueueService \<Rightarrow> 'd QueueService" where
  "processJob_begin now job processor s =
     (let s1 = s\<lparr>processing := insert (type_job job) (processing s)\<rparr>;
          s2 = removeJobFromQueue job s1;
          job' = job\<lparr>status := PROCESSING, attempts := attempts job + 1, updatedAt := now\<rparr>;
          s3 = s2\<lparr>activeJobs := AList.update (id_job job) job' (activeJobs s2)\<rparr>;
          s4 = emit ''job:processing'' job' s3
      in s4\<lparr>awaiting := awaiting s4 @ [(job', processor job')]\<rparr>)"

text \<open>
  \<^verbatim>\<open>error instanceof Error ? error.message : 'Unknown error'\<close>
\<close>

fun errorMessage :: "thrown \<Rightarrow> string" where
  "errorMessage (ErrorObject m) = m"
| "errorMessage NonError = ''Unknown error''"

text \<open>
  \<^verbatim>\<open>processJob\<close> from the point where the promise has settled: the rest of the
  \<^verbatim>\<open>try\<close> block or the \<^verbatim>\<open>catch\<close> block, then the \<^verbatim>\<open>finally\<close> block.
\<close>

definition processJob_settled :: "int \<Rightarrow> 'd Job \<Rightarrow> outcome \<Rightarrow> 'd QueueService \<Rightarrow> 'd QueueService" where
  "processJob_settled now job res s =
     (let s' =
        (case res of
           Resolved \<Rightarrow>
             (let job1 = job\<lparr>status := COMPLETED, processedAt := Some now, updatedAt := now\<rparr>;
                  s1 = s\<lparr>activeJobs := write_back job1 (activeJobs s)\<rparr>
              in emit ''job:completed'' job1 s1)
         | Rejected e \<Rightarrow>
             (let job1 = job\<lparr>error := Some (errorMessage e), updatedAt := now\<rparr>
              in if attempts job1 < maxAttempts job1
                 then
                   (let job2 = job1\<lparr>status := RETRYING\<rparr>;
                        s1 = s\<lparr>activeJobs := write_back job2 (activeJobs s)\<rparr>;
                        s2 = emit ''job:retrying'' job2 s1
                    in s2\<lparr>timers := timers s2 @ [(job2, retryDelay (config s2) * attempts job2)]\<rparr>)
                 else
                   (let job2 = job1\<lparr>status := FAILED\<rparr>;
                        s1 = s\<lparr>activeJobs := write_back job2 (activeJobs s)\<rparr>;
                        s2 = emit ''job:failed'' job2 s1
                    in s2\<lparr>activeJobs := AList.delete (id_job job2) (activeJobs s2)\<rparr>)))
      in s'\<lparr>processing := processing s' - {type_job job}\<rparr>)"

text \<open>The callback given to \<^verbatim>\<open>setTimeout\<close>, for the job of its closure.\<close>

definition retry_callback :: "'d Job \<Rightarrow> 'd QueueService \<Rightarrow> 'd QueueService" where
  "retry_callback job s =
     (let s1 = (case map_of (queues s) (type_job job) of
                  None \<Rightarrow> s
                | Some queue \<Rightarrow>
                    s\<lparr>queues := AList.update (type_job job) (push_sorted job queue) (queues s)\<rparr>)
      in s1\<lparr>activeJobs := AList.delete (id_job job) (activeJobs s1)\<rparr>)"

text \<open>\<^verbatim>\<open>processJobs\<close>, one tick of the interval, up to the first suspension.\<close>

definition processJobs :: "int \<Rightarrow> 'd QueueService \<Rightarrow> 'd QueueService" where
  "processJobs now s =
     (if int (length (activeJobs s)) \<ge> maxConcurrent (config s) then s
      else case getNextJob s of
             None \<Rightarrow> s
           | Some job \<Rightarrow>
               (case processors s (type_job job) of
                  None \<Rightarrow> removeJobFromQueue job s
                | Some processor \<Rightarrow> processJob_begin now job processor s))"

text \<open>\<^verbatim>\<open>clearQueues\<close>: \<^verbatim>\<open>queue.length = 0\<close> for every queue of the map.\<close>

definition clearQueues :: "'d QueueService \<Rightarrow> 'd QueueService" where
  "clearQueues s = s\<lparr>queues := map (\<lambda>(ty, queue). (ty, [])) (queues s)\<rparr>"

section \<open>QueueService: what can happen to a scheduler\<close>

text \<open>
  The scheduler is driven by calls of its public methods and by the runtime: the interval
  timer calls \<^verbatim>\<open>processJobs\<close> (\<open>Tick\<close>, as long as the interval is not stopped), the
  promise of the \<open>i\<close>-th invocation under way settles and the suspended
  \<^verbatim>\<open>processJob\<close> goes on (\<open>Settle i\<close>), the \<open>i\<close>-th pending retry timer fires
  (\<open>Fire i\<close>). Times (\<^verbatim>\<open>Date.now()\<close>) and job ids come with the event.
\<close>

datatype 'd event =
    AddJob string 'd JobPriority string int
  | RegisterProcessor string "'d JobProcessor"
  | Tick int
  | Settle nat int
  | Fire nat
  | ClearQueues

definition drop_nth :: "nat \<Rightarrow> 'a list \<Rightarrow> 'a list" where
  "drop_nth i xs = take i xs @ drop (Suc i) xs"

fun step :: "'d event \<Rightarrow> 'd QueueService \<Rightarrow> 'd QueueService" where
  "step (AddJob ty d pr jobId now) s = snd (addJob ty d pr jobId now s)"
| "step (RegisterProcessor ty p) s = registerProcessor ty p s"
| "step (Tick now) s = processJobs now s"
| "step (Settle i now) s =
     (if i < length (awaiting s)
      then processJob_settled now (fst (awaiting s ! i)) (snd (awaiting s ! i))
             (s\<lparr>awaiting := drop_nth i (awaiting s)\<rparr>)
      else s)"
| "step (Fire i) s =
     (if i < length (timers s)
      then retry_callback (fst (timers s ! i)) (s\<lparr>timers := drop_nth i (timers s)\<rparr>)
      else s)"
| "step ClearQueues s = clearQueues s"

definition run :: "'d event list \<Rightarrow> 'd QueueService \<Rightarrow> 'd QueueService" where
  "run evs s = fold step evs s"

section \<open>Auxiliary definitions for the statements\<close>

abbreviation prio :: "'d Job \<Rightarrow> int" where
  "prio j \<equiv> priority_value (priority j)"

text \<open>
  The heads of the queues of the eligible types, in the iteration order of the map: a type
  is eligible when its queue is not empty and the type is not marked in-flight.
\<close>

definition eligible_heads :: "'d QueueService \<Rightarrow> 'd Job list" where
  "eligible_heads s =
     map (\<lambda>(ty, q). hd q) (filter (\<lambda>(ty, q). q \<noteq> [] \<and> ty \<notin> processing s) (queues s))"

text \<open>The comparison of \<open>getNextJob_loop\<close> alone, over a list of candidate jobs.\<close>

fun scan :: "'d Job list \<Rightarrow> 'd Job option \<times> int \<Rightarrow> 'd Job option \<times> int" where
  "scan [] acc = acc"
| "scan (j # js) (b, hp) = (if prio j > hp then scan js (Some j, prio j) else scan js (b, hp))"

text \<open>The job as \<open>processJob_begin\<close> leaves it: PROCESSING, one more attempt.\<close>

definition started :: "int \<Rightarrow> 'd Job \<Rightarrow> 'd Job" where
  "started now job = job\<lparr>status := PROCESSING, attempts := attempts job + 1, updatedAt := now\<rparr>"

text \<open>A property of every queue of the map, given the type it is the queue of.\<close>

definition all_queues :: "(string \<Rightarrow> 'd Job list \<Rightarrow> bool) \<Rightarrow> (string \<times> 'd Job list) list \<Rightarrow> bool" where
  "all_queues Q qs \<longleftrightarrow> (\<forall>(ty, q)\<in>set qs. Q ty q)"

text \<open>
  The map of the queues is a map (no type twice) and each queue holds jobs of its own type.
\<close>

definition queues_wf :: "(string \<times> 'd Job list) list \<Rightarrow> bool" where
  "queues_wf qs \<longleftrightarrow>
     distinct (map fst qs) \<and> all_queues (\<lambda>ty q. \<forall>j\<in>set q. type_job j = ty) qs"

text \<open>Sorted by priority, greatest first.\<close>

definition sorted_desc :: "'d Job list \<Rightarrow> bool" where
  "sorted_desc q \<longleftrightarrow> sorted_wrt (\<lambda>a b. prio a \<ge> prio b) q"

text \<open>
  Processors are never unregistered: a job waiting for a retry or being processed has a
  processor, and a queued job of a type without processor has never been dispatched.
\<close>

definition inv_processors :: "'d QueueService \<Rightarrow> bool" where
  "inv_processors s \<longleftrightarrow>
     all_queues (\<lambda>ty q. processors s ty = None \<longrightarrow> (\<forall>j\<in>set q. status j = PENDING \<and> attempts j = 0))
       (queues s)
     \<and> (\<forall>(j, d)\<in>set (timers s). processors s (type_job j) \<noteq> None)
     \<and> (\<forall>(j, r)\<in>set (awaiting s). processors s (type_job j) \<noteq> None)"

section \<open>Example schedulers\<close>

text \<open>The configuration \<^verbatim>\<open>{}\<close>.\<close>

definition default_config :: QueueConfig where
  "default_config = \<lparr> maxConcurrent_opt = None, retryAttempts_opt = None, retryDelay_opt = None,
     processInterval_opt = None \<rparr>"

text \<open>Scenario D: one job of a type that has no processor.\<close>

definition scenario_D :: "unit QueueService" where
  "scenario_D = run [AddJob ''unregistered_type'' () NORMAL ''job_1'' 10] (constructor default_config)"

text \<open>
  A scheduler with five types: type b is in flight, type d has an empty queue, and the heads
  of c and e tie on the greatest priority among the others.
\<close>

definition example_job :: "string \<Rightarrow> string \<Rightarrow> JobPriority \<Rightarrow> unit Job" where
  "example_job jobId ty pr =
     \<lparr> id_job = jobId, type_job = ty, data_job = (), priority = pr, status = PENDING,
       attempts = 0, maxAttempts = 3, createdAt = 0, updatedAt = 0, processedAt = None,
       error = None \<rparr>"

definition example_scheduler :: "unit QueueService" where
  "example_scheduler =
     \<lparr> queues = [(''a'', [example_job ''j1'' ''a'' NORMAL]),
                (''b'', [example_job ''j2'' ''b'' CRITICAL]),
                (''c'', [example_job ''j3'' ''c'' HIGH, example_job ''j4'' ''c'' LOW]),
                (''d'', []),
                (''e'', [example_job ''j5'' ''e'' HIGH])],
       processors = Map.empty, processing = {''b''},
       activeJobs = [(''j0'', (example_job ''j0'' ''b'' LOW)\<lparr>status := PROCESSING, attempts := 1\<rparr>)],
       config = \<lparr> maxConcurrent = 5, retryAttempts = 3, retryDelay = 1000, processInterval = 100 \<rparr>,
       awaiting = [((example_job ''j0'' ''b'' LOW)\<lparr>status := PROCESSING, attempts := 1\<rparr>, Resolved)],
       timers = [], emitted = [] \<rparr>"

text \<open>The same scheduler with a single slot, which the job in flight occupies.\<close>

definition example_saturated :: "unit QueueService" where
  "example_saturated =
     example_scheduler\<lparr>config := \<lparr> maxConcurrent = 1, retryAttempts = 3, retryDelay = 1000,
       processInterval = 100 \<rparr>\<rparr>"

text \<open>Three jobs of one type, added in an order that is not the order of their priorities.\<close>

definition three_emails :: "unit event list" where
  "three_emails = [AddJob ''email'' () LOW ''job_a'' 1, AddJob ''email'' () CRITICAL ''job_b'' 2,
     AddJob ''email'' () NORMAL ''job_c'' 3]"

text \<open>The job that a failed attempt leaves when another attempt is due.\<close>

definition retrying :: "int \<Rightarrow> thrown \<Rightarrow> 'd Job \<Rightarrow> 'd Job" where
  "retrying now e job = job\<lparr>error := Some (errorMessage e), updatedAt := now, status := RETRYING\<rparr>"

text \<open>
  The events that run code deleting a given id from the active map: the retry timer of a job
  with that id fires, or the invocation for a job with that id settles.
\<close>

fun releases :: "'d event \<Rightarrow> 'd QueueService \<Rightarrow> string \<Rightarrow> bool" where
  "releases (Fire i) s jobId = (i < length (timers s) \<and> id_job (fst (timers s ! i)) = jobId)"
| "releases (Settle i now) s jobId = (i < length (awaiting s) \<and> id_job (fst (awaiting s ! i)) = jobId)"
| "releases _ s jobId = False"

text \<open>
  One slot, a processor that succeeds, two jobs: the first is dispatched and completes, then
  the interval ticks again.
\<close>

definition single_slot_config :: QueueConfig where
  "single_slot_config = \<lparr> maxConcurrent_opt = Some 1, retryAttempts_opt = None,
     retryDelay_opt = None, processInterval_opt = None \<rparr>"

definition success_trace :: "unit event list" where
  "success_trace = [RegisterProcessor ''email'' (\<lambda>job. Resolved),
     AddJob ''email'' () NORMAL ''job_1'' 10, AddJob ''email'' () NORMAL ''job_2'' 11,
     Tick 20, Settle 0 30, Tick 40]"

text \<open>
  A processor that throws: a job of type x is dispatched, a second job of type x with a
  higher priority is added, and the first attempt fails.
\<close>

definition retry_trace :: "unit event list" where
  "retry_trace = [RegisterProcessor ''x'' (\<lambda>job. Rejected (ErrorObject ''boom'')),
     AddJob ''x'' () NORMAL ''job_1'' 10, Tick 20, AddJob ''x'' () HIGH ''job_2'' 25, Settle 0 30]"

text \<open>The same run, stopped before the failure, and the state right after the failure.\<close>

definition in_flight :: "unit QueueService" where
  "in_flight = run [RegisterProcessor ''x'' (\<lambda>job. Rejected (ErrorObject ''boom'')),
     AddJob ''x'' () NORMAL ''job_1'' 10, Tick 20, AddJob ''x'' () HIGH ''job_2'' 25]
     (constructor default_config)"

definition in_flight_job :: "unit Job" where
  "in_flight_job = started 20 (new_job ''x'' () NORMAL ''job_1'' 10 (constructor default_config))"

definition backing_off :: "unit QueueService" where
  "backing_off = processJob_settled 30 in_flight_job (Rejected (ErrorObject ''boom''))
     (in_flight\<lparr>awaiting := []\<rparr>)"

text \<open>The bound on the attempts of one job, and every job a scheduler state holds or has emitted.\<close>

definition job_ok :: "'d Job \<Rightarrow> bool" where
  "job_ok j \<longleftrightarrow> attempts j \<le> maxAttempts j \<and> (status j = FAILED \<longrightarrow> attempts j = maxAttempts j)"

definition all_jobs :: "'d QueueService \<Rightarrow> 'd Job list" where
  "all_jobs s = concat (map snd (queues s)) @ map snd (activeJobs s) @ map fst (awaiting s)
     @ map fst (timers s) @ map snd (emitted s)"

text \<open>
  What holds of the jobs in each place when the configured number of attempts is positive: a
  queued job and a job waiting for its retry have an attempt left.
\<close>

definition inv_attempts :: "'d QueueService \<Rightarrow> bool" where
  "inv_attempts s \<longleftrightarrow>
     0 < retryAttempts (config s)
     \<and> all_queues (\<lambda>ty q. \<forall>j\<in>set q. attempts j < maxAttempts j \<and> status j \<noteq> FAILED) (queues s)
     \<and> (\<forall>(j, d)\<in>set (timers s). attempts j < maxAttempts j \<and> status j \<noteq> FAILED)
     \<and> (\<forall>(j, r)\<in>set (awaiting s). attempts j \<le> maxAttempts j \<and> status j \<noteq> FAILED)
     \<and> (\<forall>(k, j)\<in>set (activeJobs s). job_ok j)
     \<and> (\<forall>(n, j)\<in>set (emitted s). job_ok j)"

text \<open>
  A processor that throws at every invocation; what it throws may depend on the number of the
  attempt.
\<close>

definition always_throws :: "(int \<Rightarrow> thrown) \<Rightarrow> 'd JobProcessor" where
  "always_throws thr job = Rejected (thr (attempts job))"

text \<open>A negative number of attempts, and one failure of a processor that throws a non-error.\<close>

definition negative_retry_config :: QueueConfig where
  "negative_retry_config = \<lparr> maxConcurrent_opt = None, retryAttempts_opt = Some (- 1),
     retryDelay_opt = None, processInterval_opt = None \<rparr>"

definition one_failure :: "unit event list" where
  "one_failure = [RegisterProcessor ''x'' (always_throws (\<lambda>n. NonError)),
     AddJob ''x'' () NORMAL ''job_1'' 10, Tick 20, Settle 0 30]"

text \<open>Scenario B: three attempts, all failing; the third throws another message.\<close>

definition scenario_B :: "unit event list" where
  "scenario_B = [RegisterProcessor ''x''
       (always_throws (\<lambda>n. ErrorObject (if n = 3 then ''third'' else ''earlier''))),
     AddJob ''x'' () NORMAL ''job_1'' 10,
     Tick 20, Settle 0 20, Fire 0, Tick 20, Settle 0 20, Fire 0, Tick 20, Settle 0 20]"

text \<open>
  The failed attempts that a scheduler has reported for the job with a given id: each failed
  attempt ends with \<^verbatim>\<open>job:retrying\<close> or with \<^verbatim>\<open>job:failed\<close>.
\<close>

definition failures :: "string \<Rightarrow> (string \<times> 'd Job) list \<Rightarrow> nat" where
  "failures jobId log =
     length (filter (\<lambda>(name, j). id_job j = jobId \<and> (name = ''job:retrying'' \<or> name = ''job:failed'')) log)"

text \<open>The ids of the jobs that a scheduler has reported so far; every job is reported when it is added.\<close>

definition used_ids :: "(string \<times> 'd Job) list \<Rightarrow> string set" where
  "used_ids log = (\<lambda>(name, j). id_job j) ` set log"

text \<open>\<^verbatim>\<open>generateJobId\<close> gives each job an id that no earlier job has.\<close>

fun fresh_id :: "'d event \<Rightarrow> 'd QueueService \<Rightarrow> bool" where
  "fresh_id (AddJob ty d pr jobId now) s = (jobId \<notin> used_ids (emitted s))"
| "fresh_id _ s = True"

fun fresh_ids :: "'d event list \<Rightarrow> 'd QueueService \<Rightarrow> bool" where
  "fresh_ids [] s = True"
| "fresh_ids (e # evs) s = (fresh_id e s \<and> fresh_ids evs (step e s))"

text \<open>
  The jobs that a scheduler still has to work on, each with the number of its attempts under
  way: a queued job and a job waiting for its retry timer have none, a job whose invocation has
  not settled has one.
\<close>

definition queued :: "'d QueueService \<Rightarrow> 'd Job multiset" where
  "queued s = mset (concat (map snd (queues s)))"

definition tagged :: "'d QueueService \<Rightarrow> ('d Job \<times> int) multiset" where
  "tagged s = image_mset (\<lambda>j. (j, 0)) (queued s)
     + image_mset (\<lambda>(j, d). (j, 0)) (mset (timers s))
     + image_mset (\<lambda>(j, r). (j, 1)) (mset (awaiting s))"

text \<open>
  No two of these jobs share an id, each has been reported, and the attempts of each are the
  failed attempts reported for its id plus the attempt under way.
\<close>

definition counted :: "('d Job \<times> int) multiset \<Rightarrow> (string \<times> 'd Job) list \<Rightarrow> bool" where
  "counted T log \<longleftrightarrow>
     (\<forall>a b. a \<in># T \<longrightarrow> b \<in># T - {#a#} \<longrightarrow> id_job (fst a) \<noteq> id_job (fst b))
     \<and> (\<forall>(j, t)\<in>#T. id_job j \<in> used_ids log \<and> int (failures (id_job j) log) + t = attempts j)"

text \<open>
  The events at which an attempt of the job with a given id fails: one of its invocations
  settles, rejected.
\<close>

fun fails :: "'d event \<Rightarrow> 'd QueueService \<Rightarrow> string \<Rightarrow> bool" where
  "fails (Settle i now) s jobId =
     (i < length (awaiting s) \<and> id_job (fst (awaiting s ! i)) = jobId \<and> snd (awaiting s ! i) \<noteq> Resolved)"
| "fails _ s jobId = False"

text \<open>Scenario B, stopped while the first attempt is under way, and while the third is.\<close>

definition first_attempt :: "unit event list" where
  "first_attempt = [RegisterProcessor ''x''
       (always_throws (\<lambda>n. ErrorObject (if n = 3 then ''third'' else ''earlier''))),
     AddJob ''x'' () NORMAL ''job_1'' 10, Tick 20]"

definition third_attempt :: "unit event list" where
  "third_attempt = first_attempt @ [Settle 0 20, Fire 0, Tick 20, Settle 0 20, Fire 0, Tick 20]"

text \<open>An id given to two jobs: the first fails once, then the second is dispatched.\<close>

definition reused_id :: "unit event list" where
  "reused_id = [RegisterProcessor ''x'' (always_throws (\<lambda>n. ErrorObject ''boom'')),
     AddJob ''x'' () NORMAL ''job_1'' 10, AddJob ''x'' () NORMAL ''job_1'' 11,
     Tick 20, Settle 0 30, Tick 40]"

text \<open>The example scheduler with a processor for type c.\<close>

definition example_dispatching :: "unit QueueService" where
  "example_dispatching = example_scheduler\<lparr>processors := [''c'' \<mapsto> (\<lambda>job. Resolved)]\<rparr>"

section \<open>NotificationService: data model\<close>

datatype NotificationType =
  session_proposal | session_request | session_update | session_delete | session_expire
  | connection_update | error_n

datatype NotificationPriority = low | normal | high

datatype ChannelType = websocket | webhook | push | email

record 'a NotificationPayload =
  type_n :: NotificationType
  topic :: string
  data_n :: 'a
  timestamp :: "int option"
  priority_n :: "NotificationPriority option"

record NotificationChannel =
  id_ch :: string
  type_ch :: ChannelType
  endpoint :: "string option"
  enabled :: bool
  filters :: "NotificationType list option"

text \<open>
  What can be observed of a service: a delivery strategy is invoked for a channel (by the key
  of the channel in the map), the delivery to a channel settles (\<open>True\<close> when it succeeds), an
  event is emitted, the promise that \<^verbatim>\<open>sendNotification\<close> returned resolves.
\<close>

datatype 'a action =
    Invoked string "'a NotificationPayload"
  | Settled string "'a NotificationPayload" bool
  | Emitted string "'a NotificationPayload"
  | Resolves "'a NotificationPayload"

text \<open>
  The state of a \<^verbatim>\<open>NotificationService\<close>. Besides the fields of the class it holds what
  the runtime holds while \<^verbatim>\<open>processQueue\<close> is suspended at
  \<^verbatim>\<open>await this.deliverNotification(notification)\<close>: the notification being delivered with
  the channels it is being delivered to (\<open>delivering\<close>), and the payload of the call of
  \<^verbatim>\<open>sendNotification\<close> that started the drain and goes on once the drain ends
  (\<open>drain_owner\<close>); and the actions observed so far (\<open>trace\<close>).
\<close>

record 'a NotificationService =
  channels :: "(string \<times> NotificationChannel) list"
  queue :: "'a NotificationPayload list"
  processing_n :: bool
  webhookEndpoints :: "string set"
  delivering :: "('a NotificationPayload \<times> (string \<times> NotificationChannel) list) option"
  drain_owner :: "'a NotificationPayload option"
  trace :: "'a action list"

text \<open>The answer to the request of a webhook channel: a response with its status, or none.\<close>

datatype response = Status int | TransportError

type_synonym 'a network = "string option \<Rightarrow> 'a NotificationPayload \<Rightarrow> response"

section \<open>NotificationService: operations\<close>

definition addChannel :: "NotificationChannel \<Rightarrow> 'a NotificationService \<Rightarrow> 'a NotificationService" where
  "addChannel channel s = s\<lparr>channels := AList.update (id_ch channel) channel (channels s)\<rparr>"

definition removeChannel :: "string \<Rightarrow> 'a NotificationService \<Rightarrow> 'a NotificationService" where
  "removeChannel channelId s = s\<lparr>channels := AList.delete channelId (channels s)\<rparr>"

text \<open>
  \<^verbatim>\<open>initializeDefaultChannels\<close>; the argument is \<^verbatim>\<open>process.env.WEBHOOK_URL\<close>, which is
  falsy when the variable is not set and when it is set to the empty string.
\<close>

definition initializeDefaultChannels :: "string option \<Rightarrow> 'a NotificationService \<Rightarrow> 'a NotificationService" where
  "initializeDefaultChannels webhook_url s =
     (let s1 = addChannel \<lparr> id_ch = ''websocket'', type_ch = websocket, endpoint = None,
                            enabled = True, filters = None \<rparr> s
      in case webhook_url of
           None \<Rightarrow> s1
         | Some url \<Rightarrow>
             if url = [] then s1
             else addChannel \<lparr> id_ch = ''webhook'', type_ch = webhook, endpoint = Some url,
                               enabled = True, filters = None \<rparr> s1)"

definition constructor_n :: "string option \<Rightarrow> 'a NotificationService" where
  "constructor_n webhook_url =
     initializeDefaultChannels webhook_url
       \<lparr> channels = [], queue = [], processing_n = False, webhookEndpoints = {},
         delivering = None, drain_owner = None, trace = [] \<rparr>"

text \<open>
  The test of \<^verbatim>\<open>deliverNotification\<close>: the channel is enabled and, when it has filters,
  they include the type of the notification.
\<close>

definition receives :: "NotificationChannel \<Rightarrow> 'a NotificationPayload \<Rightarrow> bool" where
  "receives channel notification \<longleftrightarrow>
     enabled channel \<and>
     (case filters channel of None \<Rightarrow> True | Some fs \<Rightarrow> type_n notification \<in> set fs)"

text \<open>
  \<^verbatim>\<open>deliverToChannel\<close> up to its first suspension: the websocket strategy has emitted its
  event by then, the webhook strategy has sent its request.
\<close>

definition invoke :: "string \<times> NotificationChannel \<Rightarrow> 'a NotificationPayload \<Rightarrow> 'a action list" where
  "invoke c notification =
     (case type_ch (snd c) of
        websocket \<Rightarrow> [Invoked (fst c) notification, Emitted ''websocket'' notification]
      | _ \<Rightarrow> [Invoked (fst c) notification])"

text \<open>
  How the delivery to one channel settles: the websocket, push and email strategies never
  throw; the webhook strategy throws unless the response is a 2xx.
\<close>

definition delivered :: "'a network \<Rightarrow> NotificationChannel \<Rightarrow> 'a NotificationPayload \<Rightarrow> bool" where
  "delivered net channel notification =
     (case type_ch channel of
        webhook \<Rightarrow>
          (case net (endpoint channel) notification of
             Status code \<Rightarrow> 200 \<le> code \<and> code \<le> 299
           | TransportError \<Rightarrow> False)
      | _ \<Rightarrow> True)"

text \<open>
  The rest of \<^verbatim>\<open>sendNotification\<close> after \<^verbatim>\<open>processQueue\<close>, for the payload of the call.
\<close>

definition send_returns :: "'a NotificationPayload \<Rightarrow> 'a NotificationService \<Rightarrow> 'a NotificationService" where
  "send_returns payload s = s\<lparr>trace := trace s @ [Emitted ''notification'' payload, Resolves payload]\<rparr>"

text \<open>
  The \<^verbatim>\<open>while\<close> loop of \<^verbatim>\<open>processQueue\<close> from its test to the next suspension: either
  the head of the queue is shifted and \<^verbatim>\<open>deliverNotification\<close> invokes the strategy of every
  channel that receives it and waits for all of them, or the queue is empty, the
  \<^verbatim>\<open>finally\<close> block clears the flag and the call that started the drain returns.
\<close>

definition drain_next :: "'a NotificationService \<Rightarrow> 'a NotificationService" where
  "drain_next s =
     (case queue s of
        notification # rest \<Rightarrow>
          (let targets = filter (\<lambda>c. receives (snd c) notification) (channels s)
           in s\<lparr>queue := rest,
                trace := trace s @ concat (map (\<lambda>c. invoke c notification) targets),
                delivering := Some (notification, targets)\<rparr>)
      | [] \<Rightarrow>
          (let s1 = s\<lparr>processing_n := False, drain_owner := None\<rparr>
           in case drain_owner s of
                None \<Rightarrow> s1
              | Some payload \<Rightarrow> send_returns payload s1))"

text \<open>
  \<^verbatim>\<open>Promise.allSettled(deliveryPromises)\<close> resolves: every delivery under way has settled,
  each failure caught on its own, and the loop goes on.
\<close>

definition deliveries_settle :: "'a network \<Rightarrow> 'a NotificationService \<Rightarrow> 'a NotificationService" where
  "deliveries_settle net s =
     (case delivering s of
        None \<Rightarrow> s
      | Some (notification, targets) \<Rightarrow>
          drain_next
            (s\<lparr>trace := trace s @
                  map (\<lambda>c. Settled (fst c) notification (delivered net (snd c) notification)) targets,
               delivering := None\<rparr>))"

text \<open>The defaults that \<^verbatim>\<open>sendNotification\<close> writes into the payload.\<close>

definition stamped :: "int \<Rightarrow> 'a NotificationPayload \<Rightarrow> 'a NotificationPayload" where
  "stamped now payload =
     payload\<lparr>timestamp := (case timestamp payload of
                              None \<Rightarrow> Some now
                            | Some t \<Rightarrow> if t = 0 then Some now else Some t),
             priority_n := (case priority_n payload of None \<Rightarrow> Some normal | Some p \<Rightarrow> Some p)\<rparr>"

text \<open>
  A call of \<^verbatim>\<open>sendNotification\<close> up to its first suspension, or to its end when a drain is
  already under way.
\<close>

definition sendNotification :: "int \<Rightarrow> 'a NotificationPayload \<Rightarrow> 'a NotificationService \<Rightarrow> 'a NotificationService" where
  "sendNotification now payload s =
     (let payload' = stamped now payload;
          s1 = s\<lparr>queue := queue s @ [payload']\<rparr>
      in if \<not> processing_n s1
         then drain_next (s1\<lparr>processing_n := True, drain_owner := Some payload'\<rparr>)
         else send_returns payload' s1)"

definition clearQueue :: "'a NotificationService \<Rightarrow> 'a NotificationService" where
  "clearQueue s = s\<lparr>queue := []\<rparr>"

text \<open>
  A call of \<^verbatim>\<open>sendNotification\<close> that the caller awaits, nothing else calling the service
  meanwhile: the deliveries settle one notification after the other until the drain ends.
\<close>

function (sequential) settle_all :: "'a network \<Rightarrow> 'a NotificationService \<Rightarrow> 'a NotificationService" where
  "settle_all net s =
     (case delivering s of
        None \<Rightarrow> s
      | Some _ \<Rightarrow> settle_all net (deliveries_settle net s))"
  by pat_completeness auto
termination
  by (relation "measure (\<lambda>(net, s). length (queue s) + (if delivering s = None then 0 else 1))")
     (auto simp: deliveries_settle_def drain_next_def Let_def send_returns_def
        split: list.splits option.splits)

declare settle_all.simps [simp del]

definition sendNotification_awaited :: "'a network \<Rightarrow> int \<Rightarrow> 'a NotificationPayload \<Rightarrow> 'a NotificationService \<Rightarrow> 'a NotificationService" where
  "sendNotification_awaited net now payload s = settle_all net (sendNotification now payload s)"

text \<open>What can happen to a service: calls of its methods, and the deliveries under way settle.\<close>

datatype 'a event_n =
    Send int "'a NotificationPayload"
  | DeliveriesSettle
  | AddChannel NotificationChannel
  | RemoveChannel string
  | ClearQueue

fun step_n :: "'a network \<Rightarrow> 'a event_n \<Rightarrow> 'a NotificationService \<Rightarrow> 'a NotificationService" where
  "step_n net (Send now payload) s = sendNotification now payload s"
| "step_n net DeliveriesSettle s = deliveries_settle net s"
| "step_n net (AddChannel channel) s = addChannel channel s"
| "step_n net (RemoveChannel channelId) s = removeChannel channelId s"
| "step_n net ClearQueue s = clearQueue s"

definition run_n :: "'a network \<Rightarrow> 'a event_n list \<Rightarrow> 'a NotificationService \<Rightarrow> 'a NotificationService" where
  "run_n net evs s = fold (step_n net) evs s"

text \<open>When no drain is under way the queue is empty and nothing is being delivered.\<close>

definition at_rest :: "'a NotificationService \<Rightarrow> bool" where
  "at_rest s \<longleftrightarrow> (\<not> processing_n s \<longrightarrow> queue s = [] \<and> delivering s = None)"

section \<open>Example services\<close>

text \<open>The two default channels.\<close>

definition websocket_channel :: NotificationChannel where
  "websocket_channel = \<lparr> id_ch = ''websocket'', type_ch = websocket, endpoint = None,
     enabled = True, filters = None \<rparr>"

definition webhook_channel :: "string \<Rightarrow> NotificationChannel" where
  "webhook_channel url = \<lparr> id_ch = ''webhook'', type_ch = webhook, endpoint = Some url,
     enabled = True, filters = None \<rparr>"

definition webhook_of :: "string option \<Rightarrow> (string \<times> NotificationChannel) list" where
  "webhook_of env =
     (case env of
        None \<Rightarrow> []
      | Some url \<Rightarrow> if url = [] then [] else [(''webhook'', webhook_channel url)])"

text \<open>Two notifications, the second sent while the first is being delivered.\<close>

definition proposal :: "string \<Rightarrow> unit NotificationPayload" where
  "proposal t = \<lparr> type_n = session_proposal, topic = t, data_n = (), timestamp = None,
     priority_n = None \<rparr>"

definition two_sends :: "unit event_n list" where
  "two_sends = [Send 100 (proposal ''a''), Send 101 (proposal ''b''), DeliveriesSettle, DeliveriesSettle]"

definition draining :: "unit NotificationService" where
  "draining = run_n (\<lambda>url n. Status 200) [Send 100 (proposal ''a'')] (constructor_n None)"

text \<open>
  Scenario C: besides the default channels (the webhook answers 500), a channel that only
  takes \<open>session_delete\<close> and a disabled channel; the notification is a \<open>session_request\<close>.
\<close>

definition request :: "unit NotificationPayload" where
  "request = \<lparr> type_n = session_request, topic = ''t'', data_n = (), timestamp = None,
     priority_n = Some high \<rparr>"

definition four_channels :: "unit NotificationService" where
  "four_channels = run_n (\<lambda>url n. Status 200)
     [AddChannel \<lparr> id_ch = ''audit'', type_ch = email, endpoint = None, enabled = True,
                   filters = Some [session_delete] \<rparr>,
      AddChannel \<lparr> id_ch = ''muted'', type_ch = push, endpoint = None, enabled = False,
                   filters = None \<rparr>]
     (constructor_n (Some ''http://hook''))"

text \<open>
  Runs in which the caller only sends notifications (and deliveries settle), and the payloads
  sent in a run, as they are enqueued.
\<close>

fun only_sends :: "'a event_n list \<Rightarrow> bool" where
  "only_sends [] = True"
| "only_sends (Send now payload # evs) = only_sends evs"
| "only_sends (DeliveriesSettle # evs) = only_sends evs"
| "only_sends (_ # evs) = False"

fun sent :: "'a event_n list \<Rightarrow> 'a NotificationPayload list" where
  "sent [] = []"
| "sent (Send now payload # evs) = stamped now payload # sent evs"
| "sent (_ # evs) = sent evs"

text \<open>
  Every payload of a list is still in the queue or has had the websocket strategy invoked for
  it, the websocket channel is there, and a drain is under way exactly while a notification
  is being delivered.
\<close>

definition accounted :: "'a NotificationPayload list \<Rightarrow> 'a NotificationService \<Rightarrow> bool" where
  "accounted ps s \<longleftrightarrow>
     (''websocket'', websocket_channel) \<in> set (channels s)
     \<and> (processing_n s \<longrightarrow> delivering s \<noteq> None)
     \<and> (\<not> processing_n s \<longrightarrow> queue s = [] \<and> delivering s = None)
     \<and> (\<forall>p\<in>set ps. p \<in> set (queue s) \<or> Invoked ''websocket'' p \<in> set (trace s))"

text \<open>Three notifications, two of them sent while a drain is under way.\<close>

definition three_sends :: "unit event_n list" where
  "three_sends = [Send 100 (proposal ''a''), Send 101 (proposal ''b''), DeliveriesSettle,
     Send 102 (proposal ''c'')]"

text \<open>
  What the calls of \<open>sendNotification\<close> made while a drain is under way log, what the
  settling of the deliveries of one notification logs, and the channels that receive a
  notification.
\<close>

definition returns :: "'a NotificationPayload list \<Rightarrow> 'a action list" where
  "returns qs = concat (map (\<lambda>q. [Emitted ''notification'' q, Resolves q]) qs)"

definition settlements :: "'a network \<Rightarrow> 'a NotificationPayload \<Rightarrow> (string \<times> NotificationChannel) list \<Rightarrow> 'a action list" where
  "settlements net n targets = map (\<lambda>c. Settled (fst c) n (delivered net (snd c) n)) targets"

definition receivers :: "'a NotificationPayload \<Rightarrow> 'a NotificationService \<Rightarrow> (string \<times> NotificationChannel) list" where
  "receivers n s = filter (\<lambda>c. receives (snd c) n) (channels s)"

text \<open>Calls made while a notification is being delivered.\<close>

definition meanwhile :: "unit event_n list" where
  "meanwhile = [Send 101 (proposal ''b''), ClearQueue, Send 102 (proposal ''c'')]"

section \<open>Configuration\<close>

lemma or_default_zero: "or_default (Some 0) d = d"
  by (simp add: or_default_def)

lemma or_default_nonzero: "d \<noteq> 0 \<Longrightarrow> or_default v d \<noteq> 0"
  by (simp add: or_default_def split: option.splits)

text \<open>
  Claim C9. A configuration field given as 0 is replaced by its default (5, 3, 1000 and 100
  for maxConcurrent, retryAttempts, retryDelay and processInterval), whatever the other fields
  are; and no configuration at all makes any of the four fields of the scheduler 0.
\<close>

theorem C9_zero_config_gives_defaults:
  "maxConcurrent (config (constructor (cfg\<lparr>maxConcurrent_opt := Some 0\<rparr>) :: 'd QueueService)) = 5
   \<and> retryAttempts (config (constructor (cfg\<lparr>retryAttempts_opt := Some 0\<rparr>) :: 'd QueueService)) = 3
   \<and> retryDelay (config (constructor (cfg\<lparr>retryDelay_opt := Some 0\<rparr>) :: 'd QueueService)) = 1000
   \<and> processInterval (config (constructor (cfg\<lparr>processInterval_opt := Some 0\<rparr>) :: 'd QueueService)) = 100
   \<and> maxConcurrent (config (constructor cfg :: 'd QueueService)) \<noteq> 0
   \<and> retryAttempts (config (constructor cfg :: 'd QueueService)) \<noteq> 0
   \<and> retryDelay (config (constructor cfg :: 'd QueueService)) \<noteq> 0
   \<and> processInterval (config (constructor cfg :: 'd QueueService)) \<noteq> 0"
  by (simp add: constructor_def or_default_zero or_default_nonzero)

section \<open>Clearing the queues\<close>

text \<open>
  Claim C8. \<open>clearQueues\<close> leaves every type with an empty queue (the types stay registered
  in the map, in the same order) and changes nothing else: not the active jobs, not the
  in-flight marks of the types, not the processor invocations under way (jobs that are
  PROCESSING), not the pending retry timers (jobs that are RETRYING), nor the processors, the
  configuration and the events emitted.
\<close>

theorem C8_clearQueues_frame:
  "map snd (queues (clearQueues s)) = replicate (length (queues s)) []
   \<and> map fst (queues (clearQueues s)) = map fst (queues s)
   \<and> activeJobs (clearQueues s) = activeJobs s
   \<and> processing (clearQueues s) = processing s
   \<and> awaiting (clearQueues s) = awaiting s
   \<and> timers (clearQueues s) = timers s
   \<and> processors (clearQueues s) = processors s
   \<and> config (clearQueues s) = config s
   \<and> emitted (clearQueues s) = emitted s"
  by (simp add: clearQueues_def comp_def case_prod_beta map_replicate_const)

section \<open>Selecting the next job\<close>

lemma priority_value_nonneg: "0 \<le> priority_value p"
  by (cases p) simp_all

lemma loop_is_scan:
  "getNextJob_loop pr qs acc =
   scan (map (\<lambda>(ty, q). hd q) (filter (\<lambda>(ty, q). q \<noteq> [] \<and> ty \<notin> pr) qs)) acc"
proof (induction qs arbitrary: acc)
  case Nil
  then show ?case by simp
next
  case (Cons a qs)
  obtain ty q where a: "a = (ty, q)" by (cases a)
  obtain b hp where acc: "acc = (b, hp)" by (cases acc)
  show ?case using Cons.IH by (cases q) (simp_all add: a acc)
qed

lemma scan_spec:
  "scan js (b, hp) = (b', hp') \<Longrightarrow>
   (\<forall>k<length js. prio (js ! k) \<le> hp') \<and> hp \<le> hp' \<and>
   ((b' = b \<and> hp' = hp) \<or>
    (\<exists>i<length js. b' = Some (js ! i) \<and> hp' = prio (js ! i) \<and> hp < hp' \<and>
        (\<forall>k<i. prio (js ! k) < hp')))"
proof (induction js arbitrary: b hp)
  case Nil
  then show ?case by simp
next
  case (Cons j js)
  show ?case
  proof (cases "prio j > hp")
    case True
    with Cons.prems have sc: "scan js (Some j, prio j) = (b', hp')" by simp
    from Cons.IH[OF sc] have
      le: "\<forall>k<length js. prio (js ! k) \<le> hp'" and mono: "prio j \<le> hp'" and
      alt: "(b' = Some j \<and> hp' = prio j) \<or>
        (\<exists>i<length js. b' = Some (js ! i) \<and> hp' = prio (js ! i) \<and> prio j < hp' \<and>
          (\<forall>k<i. prio (js ! k) < hp'))" by auto
    have all: "\<forall>k<length (j # js). prio ((j # js) ! k) \<le> hp'"
      using le mono by (auto simp: nth_Cons split: nat.splits)
    from alt have "\<exists>i<length (j # js). b' = Some ((j # js) ! i) \<and> hp' = prio ((j # js) ! i) \<and> hp < hp' \<and>
        (\<forall>k<i. prio ((j # js) ! k) < hp')"
    proof
      assume "b' = Some j \<and> hp' = prio j"
      then show ?thesis using True by (intro exI[of _ 0]) simp
    next
      assume "\<exists>i<length js. b' = Some (js ! i) \<and> hp' = prio (js ! i) \<and> prio j < hp' \<and>
          (\<forall>k<i. prio (js ! k) < hp')"
      then obtain i where i: "i < length js" "b' = Some (js ! i)" "hp' = prio (js ! i)"
        "prio j < hp'" "\<forall>k<i. prio (js ! k) < hp'" by blast
      show ?thesis
        using i True by (intro exI[of _ "Suc i"]) (auto simp: nth_Cons split: nat.splits)
    qed
    with all mono True show ?thesis by auto
  next
    case False
    with Cons.prems have sc: "scan js (b, hp) = (b', hp')" by simp
    from Cons.IH[OF sc] have
      le: "\<forall>k<length js. prio (js ! k) \<le> hp'" and mono: "hp \<le> hp'" and
      alt: "(b' = b \<and> hp' = hp) \<or>
        (\<exists>i<length js. b' = Some (js ! i) \<and> hp' = prio (js ! i) \<and> hp < hp' \<and>
          (\<forall>k<i. prio (js ! k) < hp'))" by auto
    have all: "\<forall>k<length (j # js). prio ((j # js) ! k) \<le> hp'"
      using le mono False by (auto simp: nth_Cons split: nat.splits)
    from alt have "(b' = b \<and> hp' = hp) \<or> (\<exists>i<length (j # js). b' = Some ((j # js) ! i) \<and> hp' = prio ((j # js) ! i) \<and> hp < hp' \<and>
        (\<forall>k<i. prio ((j # js) ! k) < hp'))"
    proof
      assume "b' = b \<and> hp' = hp" then show ?thesis by simp
    next
      assume "\<exists>i<length js. b' = Some (js ! i) \<and> hp' = prio (js ! i) \<and> hp < hp' \<and>
          (\<forall>k<i. prio (js ! k) < hp')"
      then obtain i where i: "i < length js" "b' = Some (js ! i)" "hp' = prio (js ! i)"
        "hp < hp'" "\<forall>k<i. prio (js ! k) < hp'" by blast
      have "\<exists>i<length (j # js). b' = Some ((j # js) ! i) \<and> hp' = prio ((j # js) ! i) \<and> hp < hp' \<and>
        (\<forall>k<i. prio ((j # js) ! k) < hp')"
        using i False by (intro exI[of _ "Suc i"]) (auto simp: nth_Cons split: nat.splits)
      then show ?thesis ..
    qed
    with all mono show ?thesis by blast
  qed
qed

lemma getNextJob_scan: "getNextJob s = fst (scan (eligible_heads s) (None, - 1))"
  by (simp add: getNextJob_def eligible_heads_def loop_is_scan)

lemma getNextJob_None_iff: "getNextJob s = None \<longleftrightarrow> eligible_heads s = []"
proof
  assume n: "getNextJob s = None"
  show "eligible_heads s = []"
  proof (cases "eligible_heads s")
    case Nil then show ?thesis .
  next
    case (Cons j js)
    obtain b' hp' where r: "scan (eligible_heads s) (None, - 1) = (b', hp')" by (cases "scan (eligible_heads s) (None, - 1)")
    from scan_spec[OF r] have "prio (eligible_heads s ! 0) \<le> hp'"
      and alt: "(b' = None \<and> hp' = - 1) \<or> (\<exists>i. b' = Some (eligible_heads s ! i))"
      using Cons by auto
    moreover have "0 \<le> prio (eligible_heads s ! 0)" by (rule priority_value_nonneg)
    ultimately have "\<exists>i. b' = Some (eligible_heads s ! i)" by auto
    with n r show ?thesis by (simp add: getNextJob_scan)
  qed
next
  assume "eligible_heads s = []"
  then show "getNextJob s = None" by (simp add: getNextJob_scan)
qed

lemma getNextJob_Some:
  assumes "getNextJob s = Some job"
  shows "\<exists>i<length (eligible_heads s). eligible_heads s ! i = job \<and>
           (\<forall>k<length (eligible_heads s). prio (eligible_heads s ! k) \<le> prio job) \<and>
           (\<forall>k<i. prio (eligible_heads s ! k) < prio job)"
proof -
  obtain b' hp' where r: "scan (eligible_heads s) (None, - 1) = (b', hp')"
    by (cases "scan (eligible_heads s) (None, - 1)")
  with assms have b': "b' = Some job" by (simp add: getNextJob_scan)
  from scan_spec[OF r] b' show ?thesis by auto
qed

section \<open>What each operation leaves unchanged\<close>

lemma queues_emit [simp]: "queues (emit name job s) = queues s"
  by (simp add: emit_def)

lemma removeJobFromQueue_frame [simp]:
  "activeJobs (removeJobFromQueue job s) = activeJobs s"
  "processing (removeJobFromQueue job s) = processing s"
  "awaiting (removeJobFromQueue job s) = awaiting s"
  "timers (removeJobFromQueue job s) = timers s"
  "emitted (removeJobFromQueue job s) = emitted s"
  "processors (removeJobFromQueue job s) = processors s"
  "config (removeJobFromQueue job s) = config s"
  by (simp_all add: removeJobFromQueue_def split: option.splits)

lemma addJob_frame [simp]:
  "activeJobs (snd (addJob ty d pr jobId now s)) = activeJobs s"
  "processing (snd (addJob ty d pr jobId now s)) = processing s"
  "awaiting (snd (addJob ty d pr jobId now s)) = awaiting s"
  "timers (snd (addJob ty d pr jobId now s)) = timers s"
  "processors (snd (addJob ty d pr jobId now s)) = processors s"
  "config (snd (addJob ty d pr jobId now s)) = config s"
  "emitted (snd (addJob ty d pr jobId now s)) = emitted s @ [(''job:added'', new_job ty d pr jobId now s)]"
  by (simp_all add: addJob_def Let_def emit_def)

lemma processJob_begin_frame [simp]:
  "timers (processJob_begin now job P s) = timers s"
  "processors (processJob_begin now job P s) = processors s"
  "config (processJob_begin now job P s) = config s"
  "processing (processJob_begin now job P s) = insert (type_job job) (processing s)"
  by (simp_all add: processJob_begin_def Let_def emit_def)

lemma processJob_settled_frame [simp]:
  "awaiting (processJob_settled now job res s) = awaiting s"
  "processors (processJob_settled now job res s) = processors s"
  "config (processJob_settled now job res s) = config s"
  "processing (processJob_settled now job res s) = processing s - {type_job job}"
  by (simp_all add: processJob_settled_def Let_def emit_def split: outcome.splits)

lemma retry_callback_frame [simp]:
  "awaiting (retry_callback job s) = awaiting s"
  "timers (retry_callback job s) = timers s"
  "processors (retry_callback job s) = processors s"
  "config (retry_callback job s) = config s"
  "processing (retry_callback job s) = processing s"
  "emitted (retry_callback job s) = emitted s"
  by (simp_all add: retry_callback_def Let_def split: option.splits)

lemma processJobs_frame [simp]:
  "timers (processJobs now s) = timers s"
  "processors (processJobs now s) = processors s"
  "config (processJobs now s) = config s"
  by (simp_all add: processJobs_def split: option.splits)

lemma queues_processJob_begin:
  "queues (processJob_begin now job P s) = queues (removeJobFromQueue job s)"
  by (simp add: processJob_begin_def Let_def emit_def removeJobFromQueue_def split: option.splits)

lemma queues_processJob_settled [simp]:
  "queues (processJob_settled now job res s) = queues s"
  by (simp add: processJob_settled_def Let_def emit_def split: outcome.splits)

lemma config_step [simp]: "config (step e s) = config s"
  by (cases e) (simp_all add: registerProcessor_def clearQueues_def)

lemma run_induct:
  assumes "P s0" and "\<And>s e. P s \<Longrightarrow> P (step e s)"
  shows "P (run evs s0)"
  using assms(1) unfolding run_def
  by (induction evs arbitrary: s0) (auto intro: assms(2))

lemma config_run [simp]: "config (run evs s) = config s"
  by (rule run_induct) simp_all

lemma set_drop_nth: "set (drop_nth i xs) \<subseteq> set xs"
  by (auto simp: drop_nth_def dest: in_set_takeD in_set_dropD)

section \<open>One tick of the dispatch loop\<close>

lemma awaiting_processJob_begin:
  "awaiting (processJob_begin now job P s) = awaiting s @ [(started now job, P (started now job))]"
  by (simp add: processJob_begin_def Let_def emit_def started_def)

lemma processJobs_full:
  "maxConcurrent (config s) \<le> int (length (activeJobs s)) \<Longrightarrow> processJobs now s = s"
  by (simp add: processJobs_def)

lemma processJobs_awaiting:
  "awaiting (processJobs now s) = awaiting s \<or>
   (\<exists>job P. getNextJob s = Some job \<and> processors s (type_job job) = Some P \<and>
      awaiting (processJobs now s) = awaiting s @ [(started now job, P (started now job))])"
  by (auto simp: processJobs_def awaiting_processJob_begin split: option.splits)

section \<open>Invariants of the queues\<close>

lemma all_queues_update:
  "all_queues Q qs \<Longrightarrow> Q ty q \<Longrightarrow> all_queues Q (AList.update ty q qs)"
  unfolding all_queues_def by (induction qs) auto

lemma all_queues_lookup:
  "all_queues Q qs \<Longrightarrow> map_of qs ty = Some q \<Longrightarrow> Q ty q"
  unfolding all_queues_def by (auto dest: map_of_SomeD)

lemma all_queues_append:
  "all_queues Q qs \<Longrightarrow> Q ty q \<Longrightarrow> all_queues Q (qs @ [(ty, q)])"
  unfolding all_queues_def by auto

lemma all_queues_clear:
  "(\<And>ty. Q ty []) \<Longrightarrow> all_queues Q (queues (clearQueues s))"
  unfolding all_queues_def clearQueues_def by auto

lemma all_queues_mono:
  "all_queues Q qs \<Longrightarrow> (\<And>ty q. Q ty q \<Longrightarrow> Q' ty q) \<Longrightarrow> all_queues Q' qs"
  unfolding all_queues_def by auto

lemma all_queues_addJob:
  assumes "all_queues Q (queues s)" and "Q ty []"
    and "\<And>q. Q ty q \<Longrightarrow> Q ty (push_sorted (new_job ty d pr jobId now s) q)"
  shows "all_queues Q (queues (snd (addJob ty d pr jobId now s)))"
proof (cases "map_of (queues s) ty")
  case None
  have "all_queues Q (queues s @ [(ty, [])])"
    using assms(1,2) by (rule all_queues_append)
  moreover have "Q ty (push_sorted (new_job ty d pr jobId now s) [])"
    using assms(2,3) by blast
  ultimately show ?thesis
    using None by (simp add: addJob_def Let_def all_queues_update map_add_def)
next
  case (Some q)
  then have "Q ty q" using assms(1) by (rule all_queues_lookup[rotated])
  then have "Q ty (push_sorted (new_job ty d pr jobId now s) q)" by (rule assms(3))
  then show ?thesis
    using Some assms(1) by (simp add: addJob_def Let_def all_queues_update)
qed

lemma all_queues_removeJobFromQueue:
  assumes "all_queues Q (queues s)"
    and "\<And>q. Q (type_job job) q \<Longrightarrow> Q (type_job job) (remove_by_id (id_job job) q)"
  shows "all_queues Q (queues (removeJobFromQueue job s))"
proof (cases "map_of (queues s) (type_job job)")
  case None
  then show ?thesis using assms(1) by (simp add: removeJobFromQueue_def)
next
  case (Some q)
  then have "Q (type_job job) q" using assms(1) by (rule all_queues_lookup[rotated])
  then have "Q (type_job job) (remove_by_id (id_job job) q)" by (rule assms(2))
  then show ?thesis
    using Some assms(1) by (simp add: removeJobFromQueue_def all_queues_update)
qed

lemma all_queues_retry_callback:
  assumes "all_queues Q (queues s)"
    and "\<And>q. Q (type_job job) q \<Longrightarrow> Q (type_job job) (push_sorted job q)"
  shows "all_queues Q (queues (retry_callback job s))"
proof (cases "map_of (queues s) (type_job job)")
  case None
  then show ?thesis using assms(1) by (simp add: retry_callback_def)
next
  case (Some q)
  then have "Q (type_job job) q" using assms(1) by (rule all_queues_lookup[rotated])
  then have "Q (type_job job) (push_sorted job q)" by (rule assms(2))
  then show ?thesis
    using Some assms(1) by (simp add: retry_callback_def all_queues_update)
qed

lemma all_queues_processJobs:
  assumes "all_queues Q (queues s)"
    and "\<And>ty q i. Q ty q \<Longrightarrow> Q ty (remove_by_id i q)"
  shows "all_queues Q (queues (processJobs now s))"
  using assms
  by (auto simp: processJobs_def queues_processJob_begin intro!: all_queues_removeJobFromQueue
      split: option.splits)

lemma set_push_sorted [simp]: "set (push_sorted job q) = insert job (set q)"
  by (simp add: push_sorted_def sort_queue_def)

lemma set_remove_by_id: "set (remove_by_id i q) \<subseteq> set q"
  by (induction q) auto

lemma sorted_remove_by_id:
  "sorted (map f q) \<Longrightarrow> sorted (map f (remove_by_id i q))"
  by (induction q) (auto dest: subsetD[OF set_remove_by_id])

lemma sorted_push_sorted:
  "sorted (map (\<lambda>j. - prio j) (push_sorted job q))"
  by (simp add: push_sorted_def sort_queue_def)

lemma distinct_keys_step:
  "distinct (map fst (queues s)) \<Longrightarrow> distinct (map fst (queues (step e s)))"
proof (cases e)
  case (AddJob ty d pr jobId now)
  assume d: "distinct (map fst (queues s))"
  have "distinct (map fst (queues s @ [(ty, [])]))" if "map_of (queues s) ty = None"
    using d that by (simp add: map_of_eq_None_iff)
  then show ?thesis
    using d AddJob by (simp add: addJob_def Let_def AList.distinct_update)
next
  case (Tick now)
  assume "distinct (map fst (queues s))"
  then show ?thesis
    using Tick
    by (simp add: processJobs_def queues_processJob_begin removeJobFromQueue_def
        AList.distinct_update split: option.splits)
next
  case (Fire i)
  assume "distinct (map fst (queues s))"
  then show ?thesis
    using Fire by (simp add: retry_callback_def AList.distinct_update split: option.splits)
next
  case ClearQueues
  assume "distinct (map fst (queues s))"
  then show ?thesis
    using ClearQueues by (simp add: clearQueues_def comp_def case_prod_beta)
qed (simp_all add: registerProcessor_def)

lemma all_queues_step:
  assumes "all_queues Q (queues s)" and "\<And>ty. Q ty []"
    and "\<And>ty q i. Q ty q \<Longrightarrow> Q ty (remove_by_id i q)"
    and "\<And>ty q job. type_job job = ty \<Longrightarrow> Q ty q \<Longrightarrow> Q ty (push_sorted job q)"
  shows "all_queues Q (queues (step e s))"
proof (cases e)
  case (AddJob ty d pr jobId now)
  have "type_job (new_job ty d pr jobId now s) = ty" by (simp add: new_job_def)
  then show ?thesis
    using AddJob assms by (auto intro!: all_queues_addJob)
next
  case (Tick now)
  then show ?thesis using assms by (auto intro!: all_queues_processJobs)
next
  case (Fire i)
  then show ?thesis using assms by (auto intro!: all_queues_retry_callback)
next
  case ClearQueues
  then show ?thesis using assms by (auto intro!: all_queues_clear)
qed (use assms in \<open>simp_all add: registerProcessor_def\<close>)

lemma queues_wf_step: "queues_wf (queues s) \<Longrightarrow> queues_wf (queues (step e s))"
  unfolding queues_wf_def
  by (auto intro!: distinct_keys_step all_queues_step dest: subsetD[OF set_remove_by_id])

lemma queues_wf_run: "queues_wf (queues (run evs (constructor cfg)))"
  by (rule run_induct) (simp_all add: queues_wf_step, simp add: constructor_def queues_wf_def all_queues_def)

lemma sorted_desc_conv: "sorted_desc q \<longleftrightarrow> sorted (map (\<lambda>j. - prio j) q)"
  by (simp add: sorted_desc_def sorted_map)

lemma queues_sorted_step:
  "all_queues (\<lambda>ty q. sorted_desc q) (queues s) \<Longrightarrow> all_queues (\<lambda>ty q. sorted_desc q) (queues (step e s))"
  by (rule all_queues_step) (simp_all add: sorted_desc_conv sorted_remove_by_id sorted_push_sorted)

lemma queues_sorted_run: "all_queues (\<lambda>ty q. sorted_desc q) (queues (run evs (constructor cfg)))"
  by (rule run_induct) (simp_all add: queues_sorted_step, simp add: constructor_def all_queues_def)

section \<open>A job whose type has no processor\<close>

lemma timers_processJob_settled:
  "set (timers (processJob_settled now job res s)) \<subseteq>
     set (timers s) \<union> {(job\<lparr>error := Some m, updatedAt := now, status := RETRYING\<rparr>, d) | m d. True}"
  by (auto simp: processJob_settled_def Let_def emit_def split: outcome.splits)

lemma awaiting_processJobs_subset:
  "(j, r) \<in> set (awaiting (processJobs now s)) \<Longrightarrow>
     (j, r) \<in> set (awaiting s) \<or> processors s (type_job j) \<noteq> None"
  by (auto simp: processJobs_def processJob_begin_def Let_def emit_def split: option.splits if_splits)

lemma inv_processors_step:
  assumes "inv_processors s"
  shows "inv_processors (step e s)"
proof -
  let ?Q = "\<lambda>s ty q. processors s ty = None \<longrightarrow> (\<forall>j\<in>set q. status j = PENDING \<and> attempts j = (0::int))"
  from assms have q: "all_queues (?Q s) (queues s)"
    and t: "\<forall>(j, d)\<in>set (timers s). processors s (type_job j) \<noteq> None"
    and a: "\<forall>(j, r)\<in>set (awaiting s). processors s (type_job j) \<noteq> None"
    by (simp_all add: inv_processors_def)
  show ?thesis
  proof (cases e)
    case (AddJob ty d pr jobId now)
    have "all_queues (?Q s) (queues (snd (addJob ty d pr jobId now s)))"
      using q by (rule all_queues_addJob) (simp_all add: new_job_def)
    then show ?thesis using AddJob t a by (simp add: inv_processors_def)
  next
    case (RegisterProcessor ty p)
    have "all_queues (?Q (registerProcessor ty p s)) (queues s)"
      using q by (rule all_queues_mono) (simp add: registerProcessor_def)
    then show ?thesis
      using RegisterProcessor t a by (auto simp: inv_processors_def registerProcessor_def)
  next
    case (Tick now)
    have "all_queues (?Q s) (queues (processJobs now s))"
      using q by (rule all_queues_processJobs) (auto dest: subsetD[OF set_remove_by_id])
    moreover have "\<forall>(j, r)\<in>set (awaiting (processJobs now s)). processors s (type_job j) \<noteq> None"
      using a awaiting_processJobs_subset[of _ _ now s] by blast
    ultimately show ?thesis using Tick t by (simp add: inv_processors_def)
  next
    case (Settle i now)
    show ?thesis
    proof (cases "i < length (awaiting s)")
      case True
      let ?job = "fst (awaiting s ! i)"
      let ?s1 = "s\<lparr>awaiting := drop_nth i (awaiting s)\<rparr>"
      have "(?job, snd (awaiting s ! i)) \<in> set (awaiting s)" using True by simp
      with a have p: "processors s (type_job ?job) \<noteq> None" by blast
      have "\<forall>(j, d)\<in>set (timers (processJob_settled now ?job (snd (awaiting s ! i)) ?s1)).
              processors s (type_job j) \<noteq> None"
        using timers_processJob_settled[of now ?job "snd (awaiting s ! i)" ?s1] t p by fastforce
      moreover have "\<forall>(j, r)\<in>set (drop_nth i (awaiting s)). processors s (type_job j) \<noteq> None"
        using a set_drop_nth[of i "awaiting s"] by blast
      ultimately show ?thesis using Settle True q by (simp add: inv_processors_def)
    next
      case False
      then show ?thesis using Settle assms by simp
    qed
  next
    case (Fire i)
    show ?thesis
    proof (cases "i < length (timers s)")
      case True
      let ?job = "fst (timers s ! i)"
      let ?s1 = "s\<lparr>timers := drop_nth i (timers s)\<rparr>"
      have "(?job, snd (timers s ! i)) \<in> set (timers s)" using True by simp
      with t have p: "processors s (type_job ?job) \<noteq> None" by blast
      have "all_queues (?Q s) (queues (retry_callback ?job ?s1))"
        by (rule all_queues_retry_callback) (use q p in auto)
      moreover have "\<forall>(j, d)\<in>set (drop_nth i (timers s)). processors s (type_job j) \<noteq> None"
        using t set_drop_nth[of i "timers s"] by blast
      ultimately show ?thesis using Fire True a by (simp add: inv_processors_def)
    next
      case False
      then show ?thesis using Fire assms by simp
    qed
  next
    case ClearQueues
    have "all_queues (?Q s) (queues (clearQueues s))" by (rule all_queues_clear) simp
    then show ?thesis using ClearQueues t a by (simp add: inv_processors_def clearQueues_def)
  qed
qed

lemma inv_processors_run: "inv_processors (run evs (constructor cfg))"
  by (rule run_induct) (simp_all add: inv_processors_step, simp add: constructor_def inv_processors_def all_queues_def)

lemma getNextJob_head:
  assumes "getNextJob s = Some job"
  shows "\<exists>ty q. (ty, job # q) \<in> set (queues s) \<and> ty \<notin> processing s"
proof -
  from getNextJob_Some[OF assms] have "job \<in> set (eligible_heads s)"
    by (auto simp: in_set_conv_nth)
  then obtain ty q where "(ty, q) \<in> set (queues s)" "q \<noteq> []" "ty \<notin> processing s" "job = hd q"
    by (auto simp: eligible_heads_def)
  then show ?thesis by (cases q) auto
qed

lemma getNextJob_lookup:
  assumes "queues_wf (queues s)" and "getNextJob s = Some job"
  shows "\<exists>q. map_of (queues s) (type_job job) = Some (job # q) \<and> type_job job \<notin> processing s"
proof -
  from getNextJob_head[OF assms(2)] obtain ty q
    where m: "(ty, job # q) \<in> set (queues s)" and np: "ty \<notin> processing s" by blast
  from assms(1) m have "type_job job = ty" by (auto simp: queues_wf_def all_queues_def)
  moreover from assms(1) m have "map_of (queues s) ty = Some (job # q)"
    by (simp add: queues_wf_def)
  ultimately show ?thesis using np by simp
qed

lemma processJobs_idle:
  "int (length (activeJobs s)) < maxConcurrent (config s) \<Longrightarrow> getNextJob s = None \<Longrightarrow>
     processJobs now s = s"
  by (simp add: processJobs_def)

lemma processJobs_dispatch:
  assumes "int (length (activeJobs s)) < maxConcurrent (config s)" and "getNextJob s = Some job"
    and "processors s (type_job job) = Some P"
  shows "queues (processJobs now s) = queues (removeJobFromQueue job s)"
    and "awaiting (processJobs now s) = awaiting s @ [(started now job, P (started now job))]"
    and "activeJobs (processJobs now s) = AList.update (id_job job) (started now job) (activeJobs s)"
    and "processing (processJobs now s) = insert (type_job job) (processing s)"
    and "emitted (processJobs now s) = emitted s @ [(''job:processing'', started now job)]"
    and "timers (processJobs now s) = timers s"
  using assms
  by (simp_all add: processJobs_def queues_processJob_begin awaiting_processJob_begin)
     (simp_all add: processJob_begin_def Let_def emit_def started_def)

lemma processJobs_drop:
  assumes "int (length (activeJobs s)) < maxConcurrent (config s)" and "getNextJob s = Some job"
    and "processors s (type_job job) = None"
  shows "processJobs now s = removeJobFromQueue job s"
  using assms by (simp add: processJobs_def)

lemma removeJobFromQueue_head:
  assumes "queues_wf (queues s)" and "getNextJob s = Some job"
  shows "\<exists>q. map_of (queues s) (type_job job) = Some (job # q)
           \<and> queues (removeJobFromQueue job s) = AList.update (type_job job) q (queues s)"
proof -
  from getNextJob_lookup[OF assms] obtain q
    where q: "map_of (queues s) (type_job job) = Some (job # q)" by blast
  then have "queues (removeJobFromQueue job s) = AList.update (type_job job) q (queues s)"
    by (simp add: removeJobFromQueue_def)
  with q show ?thesis by blast
qed

text \<open>
  Claim C5. One tick: when the number of active jobs has reached \<open>maxConcurrent\<close> nothing
  changes. Otherwise at most one processor invocation is started, and it is for the job that
  \<open>getNextJob\<close> selects. \<open>getNextJob\<close> selects nothing exactly when no type is eligible
  (non-empty queue, not in flight); the job it selects is the head of an eligible type whose
  priority no other eligible head exceeds, and every eligible head before it in the order of
  the map has a strictly smaller priority (the first found is kept on ties). Below the limit,
  a tick that finds no job changes nothing, and a tick that finds one takes exactly that job
  from the head of the queue of its type and, when the type has a processor, dispatches it:
  the job becomes PROCESSING with one more attempt, is put into the active map, its type is
  marked in-flight, the event is emitted and the processor is invoked; without a processor
  nothing else changes. The queues of every state the scheduler can reach are well formed, as
  this needs.
\<close>

theorem C5_tick_selects_one:
  "(maxConcurrent (config s) \<le> int (length (activeJobs s)) \<longrightarrow> processJobs now s = s)
   \<and> (awaiting (processJobs now s) = awaiting s \<or>
       (\<exists>job P. getNextJob s = Some job \<and> processors s (type_job job) = Some P \<and>
          awaiting (processJobs now s) = awaiting s @ [(started now job, P (started now job))]))
   \<and> (getNextJob s = None \<longleftrightarrow> eligible_heads s = [])
   \<and> (\<forall>job. getNextJob s = Some job \<longrightarrow>
         (\<exists>i<length (eligible_heads s). eligible_heads s ! i = job \<and>
            (\<forall>k<length (eligible_heads s). prio (eligible_heads s ! k) \<le> prio job) \<and>
            (\<forall>k<i. prio (eligible_heads s ! k) < prio job)))
   \<and> (int (length (activeJobs s)) < maxConcurrent (config s) \<longrightarrow>
        (getNextJob s = None \<longrightarrow> processJobs now s = s)
        \<and> (\<forall>job. getNextJob s = Some job \<longrightarrow>
              queues (processJobs now s) = queues (removeJobFromQueue job s)
              \<and> timers (processJobs now s) = timers s
              \<and> (queues_wf (queues s) \<longrightarrow>
                   (\<exists>q. map_of (queues s) (type_job job) = Some (job # q)
                      \<and> queues (processJobs now s) = AList.update (type_job job) q (queues s)))
              \<and> (\<forall>P. processors s (type_job job) = Some P \<longrightarrow>
                    awaiting (processJobs now s) = awaiting s @ [(started now job, P (started now job))]
                    \<and> activeJobs (processJobs now s)
                        = AList.update (id_job job) (started now job) (activeJobs s)
                    \<and> processing (processJobs now s) = insert (type_job job) (processing s)
                    \<and> emitted (processJobs now s) = emitted s @ [(''job:processing'', started now job)])
              \<and> (processors s (type_job job) = None \<longrightarrow>
                    awaiting (processJobs now s) = awaiting s
                    \<and> activeJobs (processJobs now s) = activeJobs s
                    \<and> processing (processJobs now s) = processing s
                    \<and> emitted (processJobs now s) = emitted s)))
   \<and> queues_wf (queues (run evs (constructor cfg :: 'd QueueService)))"
proof -
  have below: "queues (processJobs now s) = queues (removeJobFromQueue job s)
              \<and> timers (processJobs now s) = timers s
              \<and> (queues_wf (queues s) \<longrightarrow>
                   (\<exists>q. map_of (queues s) (type_job job) = Some (job # q)
                      \<and> queues (processJobs now s) = AList.update (type_job job) q (queues s)))
              \<and> (\<forall>P. processors s (type_job job) = Some P \<longrightarrow>
                    awaiting (processJobs now s) = awaiting s @ [(started now job, P (started now job))]
                    \<and> activeJobs (processJobs now s)
                        = AList.update (id_job job) (started now job) (activeJobs s)
                    \<and> processing (processJobs now s) = insert (type_job job) (processing s)
                    \<and> emitted (processJobs now s) = emitted s @ [(''job:processing'', started now job)])
              \<and> (processors s (type_job job) = None \<longrightarrow>
                    awaiting (processJobs now s) = awaiting s
                    \<and> activeJobs (processJobs now s) = activeJobs s
                    \<and> processing (processJobs now s) = processing s
                    \<and> emitted (processJobs now s) = emitted s)"
    if lim: "int (length (activeJobs s)) < maxConcurrent (config s)" and nx: "getNextJob s = Some job"
    for job
  proof (cases "processors s (type_job job)")
    case None
    have pj: "processJobs now s = removeJobFromQueue job s"
      using lim nx None by (rule processJobs_drop)
    show ?thesis
      using None removeJobFromQueue_head[of s job] nx by (simp add: pj)
  next
    case (Some P)
    note d = processJobs_dispatch[OF lim nx Some, of now]
    show ?thesis
      using Some removeJobFromQueue_head[of s job] nx by (simp add: d)
  qed
  show ?thesis
    using processJobs_full[of s now] processJobs_awaiting[of now s] getNextJob_None_iff[of s]
      getNextJob_Some[of s] processJobs_idle[of s now] below queues_wf_run[of evs cfg]
    by (intro conjI impI allI) blast+
qed

theorem C5_witness:
  "processJobs 7 example_saturated = example_saturated
   \<and> eligible_heads example_scheduler =
        [example_job ''j1'' ''a'' NORMAL, example_job ''j3'' ''c'' HIGH, example_job ''j5'' ''e'' HIGH]
   \<and> getNextJob example_scheduler = Some (example_job ''j3'' ''c'' HIGH)
   \<and> (\<exists>i<length (eligible_heads example_scheduler).
         eligible_heads example_scheduler ! i = example_job ''j3'' ''c'' HIGH \<and>
         (\<forall>k<length (eligible_heads example_scheduler).
            prio (eligible_heads example_scheduler ! k) \<le> prio (example_job ''j3'' ''c'' HIGH)) \<and>
         (\<forall>k<i. prio (eligible_heads example_scheduler ! k) < prio (example_job ''j3'' ''c'' HIGH)))
   \<and> int (length (activeJobs example_dispatching)) < maxConcurrent (config example_dispatching)
   \<and> getNextJob example_dispatching = Some (example_job ''j3'' ''c'' HIGH)
   \<and> queues_wf (queues example_dispatching)
   \<and> map_of (queues (processJobs 7 example_dispatching)) ''c'' = Some [example_job ''j4'' ''c'' LOW]
   \<and> awaiting (processJobs 7 example_dispatching) = awaiting example_dispatching
        @ [(started 7 (example_job ''j3'' ''c'' HIGH), Resolved)]
   \<and> map fst (activeJobs (processJobs 7 example_dispatching)) = [''j0'', ''j3'']
   \<and> processing (processJobs 7 example_dispatching) = {''b'', ''c''}
   \<and> emitted (processJobs 7 example_dispatching) = [(''job:processing'', started 7 (example_job ''j3'' ''c'' HIGH))]"
proof -
  let ?j3 = "example_job ''j3'' ''c'' HIGH"
  have full: "maxConcurrent (config example_saturated) \<le> int (length (activeJobs example_saturated))"
    by (simp add: example_saturated_def example_scheduler_def)
  have el: "eligible_heads example_scheduler = [example_job ''j1'' ''a'' NORMAL, ?j3, example_job ''j5'' ''e'' HIGH]"
    by (simp add: eligible_heads_def example_scheduler_def)
  have nx: "getNextJob example_scheduler = Some ?j3"
    by (simp add: getNextJob_def example_scheduler_def example_job_def)
  have lim: "int (length (activeJobs example_dispatching)) < maxConcurrent (config example_dispatching)"
    by (simp add: example_dispatching_def example_scheduler_def)
  have nxd: "getNextJob example_dispatching = Some ?j3"
    by (simp add: getNextJob_def example_dispatching_def example_scheduler_def example_job_def)
  have wf: "queues_wf (queues example_dispatching)"
    by (simp add: queues_wf_def all_queues_def example_dispatching_def example_scheduler_def
        example_job_def)
  have pr: "processors example_dispatching (type_job ?j3) = Some (\<lambda>job. Resolved)"
    by (simp add: example_dispatching_def example_job_def)
  have flds: "type_job ?j3 = ''c''" "id_job ?j3 = ''j3''" by (simp_all add: example_job_def)
  from C5_tick_selects_one[of example_saturated 7] full
  have a: "processJobs 7 example_saturated = example_saturated" by blast
  from C5_tick_selects_one[of example_scheduler 7] nx
  have b: "\<exists>i<length (eligible_heads example_scheduler).
         eligible_heads example_scheduler ! i = ?j3 \<and>
         (\<forall>k<length (eligible_heads example_scheduler).
            prio (eligible_heads example_scheduler ! k) \<le> prio ?j3) \<and>
         (\<forall>k<i. prio (eligible_heads example_scheduler ! k) < prio ?j3)"
    by blast
  note main = C5_tick_selects_one[of example_dispatching 7, THEN conjunct2, THEN conjunct2, THEN conjunct2,
      THEN conjunct2, THEN conjunct1, rule_format, OF lim, THEN conjunct2, rule_format, OF nxd]
  from main wf have "\<exists>q. map_of (queues example_dispatching) (type_job ?j3) = Some (?j3 # q)
      \<and> queues (processJobs 7 example_dispatching) = AList.update (type_job ?j3) q (queues example_dispatching)"
    by blast
  then have c: "map_of (queues (processJobs 7 example_dispatching)) ''c'' = Some [example_job ''j4'' ''c'' LOW]"
    by (auto simp: flds AList.update_conv' example_dispatching_def example_scheduler_def)
  from main pr have d: "awaiting (processJobs 7 example_dispatching) = awaiting example_dispatching @ [(started 7 ?j3, Resolved)]"
    "activeJobs (processJobs 7 example_dispatching) = AList.update (id_job ?j3) (started 7 ?j3) (activeJobs example_dispatching)"
    "processing (processJobs 7 example_dispatching) = insert (type_job ?j3) (processing example_dispatching)"
    "emitted (processJobs 7 example_dispatching) = emitted example_dispatching @ [(''job:processing'', started 7 ?j3)]"
    by blast+
  have e: "map fst (activeJobs (processJobs 7 example_dispatching)) = [''j0'', ''j3'']"
    "processing (processJobs 7 example_dispatching) = {''b'', ''c''}"
    "emitted (processJobs 7 example_dispatching) = [(''job:processing'', started 7 ?j3)]"
    unfolding d by (auto simp: flds example_dispatching_def example_scheduler_def)
  show ?thesis using a el nx b lim nxd wf c d(1) e by (intro conjI)
qed

text \<open>
  Claim C6. In any state the scheduler can reach, when a tick selects a job whose type has no
  processor, the job is the head of its type's queue and the tick takes it out of that queue
  and does nothing else: the job has never been dispatched (it is still PENDING with no
  attempt), no processor invocation starts, the active jobs, the in-flight marks and the retry
  timers are unchanged, and no event is emitted. Adding a job returns its id whether or not a
  processor is registered.
\<close>

theorem C6_missing_processor_drops_job:
  assumes "s = run evs (constructor cfg)"
    and "int (length (activeJobs s)) < maxConcurrent (config s)"
    and "getNextJob s = Some job"
    and "processors s (type_job job) = None"
  shows "(\<exists>q. map_of (queues s) (type_job job) = Some (job # q)
            \<and> queues (processJobs now s) = AList.update (type_job job) q (queues s))
       \<and> status job = PENDING \<and> attempts job = 0
       \<and> awaiting (processJobs now s) = awaiting s
       \<and> activeJobs (processJobs now s) = activeJobs s
       \<and> processing (processJobs now s) = processing s
       \<and> timers (processJobs now s) = timers s
       \<and> emitted (processJobs now s) = emitted s
       \<and> fst (addJob ty d pr jobId t s) = jobId"
proof -
  have wf: "queues_wf (queues s)" using assms(1) queues_wf_run by simp
  from getNextJob_lookup[OF wf assms(3)] obtain q
    where q: "map_of (queues s) (type_job job) = Some (job # q)" by blast
  have pj: "processJobs now s = removeJobFromQueue job s"
    using assms(2,3,4) by (simp add: processJobs_def)
  have "queues (processJobs now s) = AList.update (type_job job) q (queues s)"
    using q by (simp add: pj removeJobFromQueue_def)
  moreover have "status job = PENDING \<and> attempts job = 0"
  proof -
    have "inv_processors s" using assms(1) inv_processors_run by simp
    then have "all_queues (\<lambda>ty q. processors s ty = None \<longrightarrow> (\<forall>j\<in>set q. status j = PENDING \<and> attempts j = 0)) (queues s)"
      by (simp add: inv_processors_def)
    from all_queues_lookup[OF this q] assms(4) show ?thesis by simp
  qed
  ultimately show ?thesis using q by (simp add: pj addJob_def Let_def)
qed

lemmas eval_defs = run_def constructor_def or_default_def addJob_def new_job_def emit_def Let_def
  push_sorted_def sort_queue_def registerProcessor_def processJobs_def getNextJob_def
  removeJobFromQueue_def processJob_begin_def processJob_settled_def retry_callback_def
  write_back_def clearQueues_def drop_nth_def default_config_def

lemma scenario_D_eq:
  "scenario_D = \<lparr> queues = [(''unregistered_type'', [\<lparr> id_job = ''job_1'', type_job = ''unregistered_type'', data_job = (), priority = NORMAL, status = PENDING,
       attempts = 0, maxAttempts = 3, createdAt = 10,
       updatedAt = 10, processedAt = None, error = None \<rparr>])], processors = Map.empty, processing = {}, activeJobs = [],
       config = \<lparr> maxConcurrent = 5, retryAttempts = 3, retryDelay = 1000, processInterval = 100 \<rparr>,
       awaiting = [], timers = [], emitted = [(''job:added'', \<lparr> id_job = ''job_1'', type_job = ''unregistered_type'', data_job = (), priority = NORMAL, status = PENDING,
       attempts = 0, maxAttempts = 3, createdAt = 10,
       updatedAt = 10, processedAt = None, error = None \<rparr>)] \<rparr>"
  by (simp add: scenario_D_def eval_defs)

theorem C6_witness:
  "getNextJob scenario_D = Some (new_job ''unregistered_type'' () NORMAL ''job_1'' 10 (constructor default_config))
   \<and> processors scenario_D ''unregistered_type'' = None
   \<and> queues (processJobs 20 scenario_D) = [(''unregistered_type'', [])]
   \<and> awaiting (processJobs 20 scenario_D) = []
   \<and> activeJobs (processJobs 20 scenario_D) = []
   \<and> timers (processJobs 20 scenario_D) = []
   \<and> emitted (processJobs 20 scenario_D) = emitted scenario_D"
proof -
  let ?job = "new_job ''unregistered_type'' () NORMAL ''job_1'' 10 (constructor default_config) :: unit Job"
  have h1: "scenario_D = run [AddJob ''unregistered_type'' () NORMAL ''job_1'' 10] (constructor default_config)"
    by (simp add: scenario_D_def)
  have h2: "int (length (activeJobs scenario_D)) < maxConcurrent (config scenario_D)"
    by (simp add: scenario_D_eq)
  have h3: "getNextJob scenario_D = Some ?job"
    by (simp add: scenario_D_eq eval_defs)
  have h4: "processors scenario_D (type_job ?job) = None"
    by (simp add: scenario_D_eq eval_defs)
  from C6_missing_processor_drops_job[OF h1 h2 h3 h4, of 20] h3 h4
  show ?thesis by (simp add: scenario_D_eq eval_defs)
qed

section \<open>The order of a queue\<close>

text \<open>
  Claim C7. In every state the scheduler can reach, every queue is sorted by priority, greatest
  first. After \<open>addJob('email', d1, HIGH)\<close> and \<open>addJob('email', d2, LOW)\<close> on a new
  scheduler the queue is d1, d2, and with a processor registered and a positive concurrency
  limit the first tick dispatches d1 and leaves d2 queued.
\<close>

theorem C7_queues_sorted:
  fixes d1 d2 :: 'd
  shows "all_queues (\<lambda>ty q. sorted_desc q) (queues (run evs (constructor cfg)))
   \<and> queues (run [AddJob ''email'' d1 HIGH id1 t1, AddJob ''email'' d2 LOW id2 t2] (constructor cfg)) =
       [(''email'', [new_job ''email'' d1 HIGH id1 t1 (constructor cfg),
                     new_job ''email'' d2 LOW id2 t2 (constructor cfg)])]
   \<and> (0 < maxConcurrent (config (constructor cfg :: 'd QueueService)) \<longrightarrow>
        awaiting (run [RegisterProcessor ''email'' P, AddJob ''email'' d1 HIGH id1 t1,
                       AddJob ''email'' d2 LOW id2 t2, Tick t3] (constructor cfg)) =
          [(started t3 (new_job ''email'' d1 HIGH id1 t1 (constructor cfg)),
            P (started t3 (new_job ''email'' d1 HIGH id1 t1 (constructor cfg))))]
        \<and> queues (run [RegisterProcessor ''email'' P, AddJob ''email'' d1 HIGH id1 t1,
                       AddJob ''email'' d2 LOW id2 t2, Tick t3] (constructor cfg)) =
          [(''email'', [new_job ''email'' d2 LOW id2 t2 (constructor cfg)])])"
proof -
  have a: "queues (run [AddJob ''email'' d1 HIGH id1 t1, AddJob ''email'' d2 LOW id2 t2] (constructor cfg)) =
       [(''email'', [new_job ''email'' d1 HIGH id1 t1 (constructor cfg),
                     new_job ''email'' d2 LOW id2 t2 (constructor cfg)])]"
    by (simp add: run_def constructor_def addJob_def new_job_def emit_def Let_def push_sorted_def sort_queue_def)
  have b: "awaiting (run [RegisterProcessor ''email'' P, AddJob ''email'' d1 HIGH id1 t1,
                       AddJob ''email'' d2 LOW id2 t2, Tick t3] (constructor cfg)) =
          [(started t3 (new_job ''email'' d1 HIGH id1 t1 (constructor cfg)),
            P (started t3 (new_job ''email'' d1 HIGH id1 t1 (constructor cfg))))]
        \<and> queues (run [RegisterProcessor ''email'' P, AddJob ''email'' d1 HIGH id1 t1,
                       AddJob ''email'' d2 LOW id2 t2, Tick t3] (constructor cfg)) =
          [(''email'', [new_job ''email'' d2 LOW id2 t2 (constructor cfg)])]"
    if "0 < maxConcurrent (config (constructor cfg :: 'd QueueService))"
    using that
    by (simp add: run_def constructor_def addJob_def new_job_def emit_def Let_def push_sorted_def
        sort_queue_def registerProcessor_def processJobs_def getNextJob_def removeJobFromQueue_def
        processJob_begin_def started_def)
  show ?thesis using queues_sorted_run[of evs cfg] a b by blast
qed

theorem C7_witness:
  "map (map id_job \<circ> snd) (queues (run three_emails (constructor default_config))) =
     [[''job_b'', ''job_c'', ''job_a'']]
   \<and> all_queues (\<lambda>ty q. sorted_desc q) (queues (run three_emails (constructor default_config)))
   \<and> 0 < maxConcurrent (config (constructor default_config :: unit QueueService))
   \<and> map (id_job \<circ> fst) (awaiting (run [RegisterProcessor ''email'' (\<lambda>j. Resolved),
          AddJob ''email'' () HIGH ''job_1'' 1, AddJob ''email'' () LOW ''job_2'' 2, Tick 3]
          (constructor default_config))) = [''job_1'']"
proof -
  have pos: "0 < maxConcurrent (config (constructor default_config :: unit QueueService))"
    by (simp add: eval_defs)
  have "map (map id_job \<circ> snd) (queues (run three_emails (constructor default_config))) =
     [[''job_b'', ''job_c'', ''job_a'']]"
    by (simp add: three_emails_def eval_defs)
  then show ?thesis
    using pos C7_queues_sorted[of three_emails default_config "()" "''job_1''" 1 "()" "''job_2''" 2
        "\<lambda>j. Resolved" 3]
    by (simp add: started_def new_job_def)
qed

section \<open>The active map\<close>

lemma keys_write_back [simp]: "map fst (write_back job al) = map fst al"
  by (induction al) (auto simp: write_back_def)

lemma activeJobs_settled_Resolved:
  "activeJobs (processJob_settled now job Resolved s) =
     write_back (job\<lparr>status := COMPLETED, processedAt := Some now, updatedAt := now\<rparr>) (activeJobs s)"
  by (simp add: processJob_settled_def Let_def emit_def)

lemma keys_delete: "fst ` set (AList.delete k al) = fst ` set al - {k}"
  by (induction al) auto

lemma keys_update: "fst ` set (AList.update k v al) = insert k (fst ` set al)"
  by (simp add: AList.dom_update)

lemma keys_settled:
  "jobId \<in> fst ` set (activeJobs s) \<Longrightarrow> id_job job \<noteq> jobId \<Longrightarrow>
     jobId \<in> fst ` set (activeJobs (processJob_settled now job res s))"
proof -
  assume a: "jobId \<in> fst ` set (activeJobs s)" and n: "id_job job \<noteq> jobId"
  have k: "fst ` set (write_back j al) = fst ` set al" for j :: "'a Job" and al
    using keys_write_back[of j al] by (metis set_map)
  show ?thesis
    using a n by (auto simp: processJob_settled_def Let_def emit_def k keys_delete split: outcome.splits)
qed

lemma keys_processJobs:
  "jobId \<in> fst ` set (activeJobs s) \<Longrightarrow> jobId \<in> fst ` set (activeJobs (processJobs now s))"
  by (auto simp: processJobs_def processJob_begin_def Let_def emit_def keys_update split: option.splits)

lemma keys_retry_callback:
  "fst ` set (activeJobs (retry_callback job s)) = fst ` set (activeJobs s) - {id_job job}"
  by (simp add: retry_callback_def keys_delete split: option.splits)

lemma active_kept:
  assumes "jobId \<in> fst ` set (activeJobs s)" and "\<not> releases ev s jobId"
  shows "jobId \<in> fst ` set (activeJobs (step ev s))"
proof (cases ev)
  case (Tick now)
  then show ?thesis using assms(1) by (simp add: keys_processJobs)
next
  case (Settle i now)
  then show ?thesis using assms by (auto intro!: keys_settled)
next
  case (Fire i)
  then show ?thesis using assms by (auto simp: keys_retry_callback)
qed (use assms in \<open>simp_all add: registerProcessor_def clearQueues_def\<close>)

text \<open>
  Claim C1. The success path of \<open>processJob\<close> sets COMPLETED, stamps \<open>processedAt\<close> and
  releases the in-flight mark of the type, but it deletes nothing from the active map: the keys
  of the map are the same after it. With one slot, the completed first job still occupies it
  and the second job is not dispatched by the next tick.
\<close>

theorem C1_completed_job_stays_active:
  "map fst (activeJobs (processJob_settled now job Resolved s)) = map fst (activeJobs s)
   \<and> map (\<lambda>(k, j). (k, status j, processedAt j)) (activeJobs (run success_trace (constructor single_slot_config)))
       = [(''job_1'', COMPLETED, Some 30)]
   \<and> processing (run success_trace (constructor single_slot_config)) = {}
   \<and> awaiting (run success_trace (constructor single_slot_config)) = []
   \<and> map (map id_job \<circ> snd) (queues (run success_trace (constructor single_slot_config))) = [[''job_2'']]"
proof -
  have "map fst (activeJobs (processJob_settled now job Resolved s)) = map fst (activeJobs s)"
    by (simp add: activeJobs_settled_Resolved)
  then show ?thesis
    by (simp add: success_trace_def single_slot_config_def eval_defs)
qed

section \<open>The backoff window\<close>

lemma settled_Rejected_retry:
  assumes "attempts job < maxAttempts job"
  shows "timers (processJob_settled now job (Rejected e) s)
           = timers s @ [(retrying now e job, retryDelay (config s) * attempts job)]"
    and "activeJobs (processJob_settled now job (Rejected e) s)
           = write_back (retrying now e job) (activeJobs s)"
    and "emitted (processJob_settled now job (Rejected e) s)
           = emitted s @ [(''job:retrying'', retrying now e job)]"
  using assms by (simp_all add: processJob_settled_def Let_def emit_def retrying_def)

lemma map_of_write_back:
  "k \<in> fst ` set al \<Longrightarrow> id_job job = k \<Longrightarrow> map_of (write_back job al) k = Some job"
  by (induction al) (auto simp: write_back_def)

lemma retry_callback_requeues:
  "map_of (queues s) (type_job job) = Some q \<Longrightarrow>
     map_of (queues (retry_callback job s)) (type_job job) = Some (push_sorted job q)"
  by (simp add: retry_callback_def AList.update_conv')

text \<open>
  Claim C2, as stated, fails: after the failed first attempt of job_1 (RETRYING, in the active
  map, its timer of 1000 ms pending) type x is not marked in-flight, and the next tick
  dispatches job_2 of the same type while the timer of job_1 is still pending.
\<close>

theorem C2_counterexample:
  "map (\<lambda>(j, d). (id_job j, status j, d)) (timers (run retry_trace (constructor default_config)))
      = [(''job_1'', RETRYING, 1000)]
   \<and> map (\<lambda>(k, j). (k, status j)) (activeJobs (run retry_trace (constructor default_config)))
      = [(''job_1'', RETRYING)]
   \<and> ''x'' \<notin> processing (run retry_trace (constructor default_config))
   \<and> map (\<lambda>(j, r). (id_job j, type_job j, status j)) (awaiting (run (retry_trace @ [Tick 40]) (constructor default_config)))
      = [(''job_2'', ''x'', PROCESSING)]
   \<and> map (\<lambda>(j, d). (id_job j, status j, d)) (timers (run (retry_trace @ [Tick 40]) (constructor default_config)))
      = [(''job_1'', RETRYING, 1000)]"
  by (simp add: retry_trace_def eval_defs)

text \<open>
  Claim C2, amended. When an attempt of a job fails with attempts below \<open>maxAttempts\<close>, the
  job becomes RETRYING, a timer of \<open>retryDelay\<close> times \<open>attempts\<close> is set, and the job
  stays in the active map, which keeps its size: no tick, \<open>addJob\<close> or \<open>clearQueues\<close>
  takes it out, only the firing of its timer does, which puts the job back into the queue of
  its type. The in-flight mark of the type, however, is released at once, so that during the
  backoff a tick may dispatch another job of the type.
\<close>

theorem C2_backoff_holds_slot_not_type:
  assumes "attempts job < maxAttempts job"
    and "id_job job \<in> fst ` set (activeJobs s)"
    and "s' = processJob_settled now job (Rejected e) s"
  shows "timers s' = timers s @ [(retrying now e job, retryDelay (config s) * attempts job)]
       \<and> map_of (activeJobs s') (id_job job) = Some (retrying now e job)
       \<and> status (retrying now e job) = RETRYING
       \<and> length (activeJobs s') = length (activeJobs s)
       \<and> type_job job \<notin> processing s'
       \<and> (\<forall>ev s''. id_job job \<in> fst ` set (activeJobs s'') \<and> \<not> releases ev s'' (id_job job)
             \<longrightarrow> id_job job \<in> fst ` set (activeJobs (step ev s'')))
       \<and> (\<forall>s'' q. map_of (queues s'') (type_job job) = Some q \<longrightarrow>
             map_of (queues (retry_callback (retrying now e job) s'')) (type_job job)
               = Some (push_sorted (retrying now e job) q)
             \<and> id_job job \<notin> fst ` set (activeJobs (retry_callback (retrying now e job) s'')))"
proof -
  have t: "type_job (retrying now e job) = type_job job" and i: "id_job (retrying now e job) = id_job job"
    by (simp_all add: retrying_def)
  have "map_of (activeJobs s') (id_job job) = Some (retrying now e job)"
    using assms by (simp add: settled_Rejected_retry map_of_write_back i)
  moreover have "length (activeJobs s') = length (activeJobs s)"
    using assms by (simp add: settled_Rejected_retry write_back_def)
  moreover have "status (retrying now e job) = RETRYING" by (simp add: retrying_def)
  moreover have "map_of (queues (retry_callback (retrying now e job) s'')) (type_job job)
               = Some (push_sorted (retrying now e job) q)"
    if "map_of (queues s'') (type_job job) = Some q" for s'' :: "'a QueueService" and q
    using retry_callback_requeues[of s'' "retrying now e job" q] that by (simp add: t)
  moreover have "id_job job \<notin> fst ` set (activeJobs (retry_callback (retrying now e job) s''))"
    for s'' :: "'a QueueService"
    by (simp add: keys_retry_callback i)
  ultimately show ?thesis
    using assms(1,3) active_kept by (simp add: settled_Rejected_retry) blast
qed

theorem C2_witness:
  "attempts in_flight_job < maxAttempts in_flight_job
   \<and> id_job in_flight_job \<in> fst ` set (activeJobs (in_flight\<lparr>awaiting := []\<rparr>))
   \<and> step (Settle 0 30) in_flight = backing_off
   \<and> timers backing_off = [(retrying 30 (ErrorObject ''boom'') in_flight_job, 1000)]
   \<and> map_of (activeJobs backing_off) ''job_1'' = Some (retrying 30 (ErrorObject ''boom'') in_flight_job)
   \<and> ''x'' \<notin> processing backing_off
   \<and> ''job_1'' \<in> fst ` set (activeJobs (step (Tick 40) backing_off))
   \<and> map (id_job \<circ> fst) (awaiting (step (Tick 40) backing_off)) = [''job_2'']
   \<and> ''job_1'' \<notin> fst ` set (activeJobs (step (Fire 0) (step (Tick 40) backing_off)))"
proof -
  have h1: "attempts in_flight_job < maxAttempts in_flight_job"
    by (simp add: in_flight_job_def started_def eval_defs)
  have h2: "id_job in_flight_job \<in> fst ` set (activeJobs (in_flight\<lparr>awaiting := []\<rparr>))"
    by (simp add: in_flight_job_def in_flight_def started_def eval_defs)
  have h3: "backing_off = processJob_settled 30 in_flight_job (Rejected (ErrorObject ''boom''))
     (in_flight\<lparr>awaiting := []\<rparr>)"
    by (simp add: backing_off_def)
  note main = C2_backoff_holds_slot_not_type[OF h1 h2 h3]
  have id: "id_job in_flight_job = ''job_1''" and ty: "type_job in_flight_job = ''x''"
    by (simp_all add: in_flight_job_def started_def new_job_def)
  have st: "step (Settle 0 30) in_flight = backing_off"
    by (simp add: backing_off_def in_flight_job_def in_flight_def started_def eval_defs)
  have aw: "map (id_job \<circ> fst) (awaiting (step (Tick 40) backing_off)) = [''job_2'']"
    by (simp add: backing_off_def in_flight_job_def in_flight_def started_def eval_defs)
  have fire: "''job_1'' \<notin> fst ` set (activeJobs (step (Fire 0) (step (Tick 40) backing_off)))"
    by (simp add: backing_off_def in_flight_job_def in_flight_def started_def eval_defs)
  from main have "timers backing_off = timers (in_flight\<lparr>awaiting := []\<rparr>) @
      [(retrying 30 (ErrorObject ''boom'') in_flight_job,
        retryDelay (config (in_flight\<lparr>awaiting := []\<rparr>)) * attempts in_flight_job)]"
    by blast
  moreover have "timers (in_flight\<lparr>awaiting := []\<rparr>) = []"
    and "retryDelay (config (in_flight\<lparr>awaiting := []\<rparr>)) * attempts in_flight_job = 1000"
    by (simp_all add: in_flight_def in_flight_job_def started_def eval_defs)
  ultimately have t: "timers backing_off = [(retrying 30 (ErrorObject ''boom'') in_flight_job, 1000)]"
    by simp
  have a: "map_of (activeJobs backing_off) ''job_1'' = Some (retrying 30 (ErrorObject ''boom'') in_flight_job)"
    using main id by metis
  have p: "''x'' \<notin> processing backing_off" using main ty by metis
  have k0: "''job_1'' \<in> fst ` set (activeJobs backing_off)"
    using a by (metis domI dom_map_of_conv_image_fst)
  have "\<not> releases (Tick 40) backing_off ''job_1''" by simp
  with main k0 id have k: "''job_1'' \<in> fst ` set (activeJobs (step (Tick 40) backing_off))"
    by metis
  show ?thesis using h1 h2 st t a p k aw fire by blast
qed

section \<open>The number of attempts\<close>

lemma clearQueues_frame [simp]:
  "activeJobs (clearQueues s) = activeJobs s"
  "processing (clearQueues s) = processing s"
  "awaiting (clearQueues s) = awaiting s"
  "timers (clearQueues s) = timers s"
  "processors (clearQueues s) = processors s"
  "config (clearQueues s) = config s"
  "emitted (clearQueues s) = emitted s"
  by (simp_all add: clearQueues_def)

lemma set_update_subset: "set (AList.update k v al) \<subseteq> insert (k, v) (set al)"
  by (induction al) auto

lemma set_delete_subset: "set (AList.delete k al) \<subseteq> set al"
  by (induction al) auto

lemma set_write_back_subset: "set (write_back job al) \<subseteq> set al \<union> {(k, job) | k. True}"
  by (auto simp: write_back_def)

lemma getNextJob_queued:
  assumes "all_queues (\<lambda>ty q. \<forall>j\<in>set q. R j) (queues s)" and "getNextJob s = Some job"
  shows "R job"
proof -
  from getNextJob_head[OF assms(2)] obtain ty q where "(ty, job # q) \<in> set (queues s)" by blast
  with assms(1) show ?thesis by (auto simp: all_queues_def)
qed

lemma inv_attempts_begin:
  assumes "inv_attempts s" and "attempts job < maxAttempts job" and "status job \<noteq> FAILED"
  shows "inv_attempts (processJob_begin now job P s)"
proof -
  let ?R = "\<lambda>ty q. \<forall>j\<in>set q. attempts j < maxAttempts j \<and> status j \<noteq> FAILED"
  let ?job' = "job\<lparr>status := PROCESSING, attempts := attempts job + 1, updatedAt := now\<rparr>"
  have ok: "job_ok ?job'" using assms(2) by (simp add: job_ok_def)
  have q: "all_queues ?R (queues (processJob_begin now job P s))"
    unfolding queues_processJob_begin
    by (rule all_queues_removeJobFromQueue)
      (use assms(1) in \<open>auto simp: inv_attempts_def dest: subsetD[OF set_remove_by_id]\<close>)
  have a: "\<forall>(k, j)\<in>set (activeJobs (processJob_begin now job P s)). job_ok j"
    using assms(1) ok set_update_subset[of "id_job job" ?job' "activeJobs s"]
    by (auto simp: processJob_begin_def Let_def emit_def inv_attempts_def)
  have e: "\<forall>(n, j)\<in>set (emitted (processJob_begin now job P s)). job_ok j"
    using assms(1) ok by (auto simp: processJob_begin_def Let_def emit_def inv_attempts_def)
  have w: "\<forall>(j, r)\<in>set (awaiting (processJob_begin now job P s)). attempts j \<le> maxAttempts j \<and> status j \<noteq> FAILED"
    using assms by (auto simp: awaiting_processJob_begin started_def inv_attempts_def)
  show ?thesis
    using assms(1) q a e w by (simp add: inv_attempts_def)
qed

lemma inv_attempts_settled:
  assumes "inv_attempts s" and "attempts job \<le> maxAttempts job" and "status job \<noteq> FAILED"
  shows "inv_attempts (processJob_settled now job res s)"
proof (cases res)
  case Resolved
  let ?job1 = "job\<lparr>status := COMPLETED, processedAt := Some now, updatedAt := now\<rparr>"
  have ok: "job_ok ?job1" using assms(2) by (simp add: job_ok_def)
  have "\<forall>(k, j)\<in>set (write_back ?job1 (activeJobs s)). job_ok j"
    using assms(1) ok set_write_back_subset[of ?job1 "activeJobs s"]
    by (auto simp: inv_attempts_def)
  then show ?thesis
    using assms(1) ok Resolved
    by (auto simp: processJob_settled_def Let_def emit_def inv_attempts_def)
next
  case (Rejected e)
  let ?job1 = "job\<lparr>error := Some (errorMessage e), updatedAt := now\<rparr>"
  show ?thesis
  proof (cases "attempts job < maxAttempts job")
    case True
    let ?job2 = "?job1\<lparr>status := RETRYING\<rparr>"
    have ok: "job_ok ?job2" using assms(2) by (simp add: job_ok_def)
    have "\<forall>(k, j)\<in>set (write_back ?job2 (activeJobs s)). job_ok j"
      using assms(1) ok set_write_back_subset[of ?job2 "activeJobs s"]
      by (auto simp: inv_attempts_def)
    then show ?thesis
      using assms(1) ok Rejected True
      by (auto simp: processJob_settled_def Let_def emit_def inv_attempts_def)
  next
    case False
    let ?job2 = "?job1\<lparr>status := FAILED\<rparr>"
    have ok: "job_ok ?job2" using assms(2) False by (simp add: job_ok_def)
    have "\<forall>(k, j)\<in>set (AList.delete (id_job job) (write_back ?job2 (activeJobs s))). job_ok j"
      using assms(1) ok set_write_back_subset[of ?job2 "activeJobs s"]
        set_delete_subset[of "id_job job" "write_back ?job2 (activeJobs s)"]
      by (auto simp: inv_attempts_def)
    then show ?thesis
      using assms(1) ok Rejected False
      by (auto simp: processJob_settled_def Let_def emit_def inv_attempts_def)
  qed
qed

lemma inv_attempts_retry_callback:
  assumes "inv_attempts s" and "attempts job < maxAttempts job" and "status job \<noteq> FAILED"
  shows "inv_attempts (retry_callback job s)"
proof -
  let ?R = "\<lambda>ty q. \<forall>j\<in>set q. attempts j < maxAttempts j \<and> status j \<noteq> FAILED"
  have q: "all_queues ?R (queues (retry_callback job s))"
    by (rule all_queues_retry_callback) (use assms in \<open>auto simp: inv_attempts_def\<close>)
  have "set (activeJobs (retry_callback job s)) \<subseteq> set (activeJobs s)"
    using set_delete_subset[of "id_job job"] by (auto simp: retry_callback_def split: option.splits)
  then have a: "\<forall>(k, j)\<in>set (activeJobs (retry_callback job s)). job_ok j"
    using assms(1) by (auto simp: inv_attempts_def)
  show ?thesis using assms(1) q a by (simp add: inv_attempts_def)
qed

lemma inv_attempts_step:
  assumes "inv_attempts s"
  shows "inv_attempts (step e s)"
proof (cases e)
  case (AddJob ty d pr jobId now)
  let ?R = "\<lambda>ty q. \<forall>j\<in>set q. attempts j < maxAttempts j \<and> status j \<noteq> FAILED"
  have pos: "0 < retryAttempts (config s)" using assms by (simp add: inv_attempts_def)
  have "all_queues ?R (queues (snd (addJob ty d pr jobId now s)))"
    by (rule all_queues_addJob) (use assms pos in \<open>auto simp: inv_attempts_def new_job_def\<close>)
  moreover have "job_ok (new_job ty d pr jobId now s)"
    using pos by (simp add: job_ok_def new_job_def)
  ultimately show ?thesis using AddJob assms by (auto simp: inv_attempts_def)
next
  case (RegisterProcessor ty p)
  then show ?thesis using assms by (simp add: inv_attempts_def registerProcessor_def)
next
  case (Tick now)
  let ?R = "\<lambda>ty q. \<forall>j\<in>set q. attempts j < maxAttempts j \<and> status j \<noteq> FAILED"
  have q: "all_queues ?R (queues s)" using assms by (simp add: inv_attempts_def)
  have rm: "inv_attempts (removeJobFromQueue job s)" for job
  proof -
    have "all_queues ?R (queues (removeJobFromQueue job s))"
      by (rule all_queues_removeJobFromQueue) (use q in \<open>auto dest: subsetD[OF set_remove_by_id]\<close>)
    then show ?thesis using assms by (simp add: inv_attempts_def)
  qed
  have bg: "inv_attempts (processJob_begin now job P s)" if "getNextJob s = Some job" for job P
    using getNextJob_queued[OF q that] assms by (auto intro: inv_attempts_begin)
  show ?thesis
    using Tick assms rm bg by (auto simp: processJobs_def split: option.splits)
next
  case (Settle i now)
  show ?thesis
  proof (cases "i < length (awaiting s)")
    case True
    let ?s1 = "s\<lparr>awaiting := drop_nth i (awaiting s)\<rparr>"
    have "(fst (awaiting s ! i), snd (awaiting s ! i)) \<in> set (awaiting s)" using True by simp
    with assms have j: "attempts (fst (awaiting s ! i)) \<le> maxAttempts (fst (awaiting s ! i))"
      "status (fst (awaiting s ! i)) \<noteq> FAILED"
      unfolding inv_attempts_def by blast+
    have "inv_attempts ?s1"
      using assms set_drop_nth[of i "awaiting s"] unfolding inv_attempts_def by auto
    from inv_attempts_settled[OF this j] show ?thesis using Settle True by simp
  next
    case False
    then show ?thesis using Settle assms by simp
  qed
next
  case (Fire i)
  show ?thesis
  proof (cases "i < length (timers s)")
    case True
    let ?s1 = "s\<lparr>timers := drop_nth i (timers s)\<rparr>"
    have "(fst (timers s ! i), snd (timers s ! i)) \<in> set (timers s)" using True by simp
    with assms have j: "attempts (fst (timers s ! i)) < maxAttempts (fst (timers s ! i))"
      "status (fst (timers s ! i)) \<noteq> FAILED"
      unfolding inv_attempts_def by blast+
    have "inv_attempts ?s1"
      using assms set_drop_nth[of i "timers s"] unfolding inv_attempts_def by auto
    from inv_attempts_retry_callback[OF this j] show ?thesis using Fire True by simp
  next
    case False
    then show ?thesis using Fire assms by simp
  qed
next
  case ClearQueues
  have "all_queues (\<lambda>ty q. \<forall>j\<in>set q. attempts j < maxAttempts j \<and> status j \<noteq> FAILED)
      (queues (clearQueues s))"
    by (rule all_queues_clear) simp
  then show ?thesis
    using ClearQueues assms by (simp add: inv_attempts_def)
qed

lemma inv_attempts_run:
  assumes "0 < retryAttempts (config (constructor cfg :: 'd QueueService))"
  shows "inv_attempts (run evs (constructor cfg :: 'd QueueService))"
proof (rule run_induct)
  show "inv_attempts (constructor cfg :: 'd QueueService)"
    using assms by (simp add: inv_attempts_def all_queues_def constructor_def)
qed (rule inv_attempts_step)

lemma inv_attempts_all_jobs:
  assumes "inv_attempts s" and "j \<in> set (all_jobs s)"
  shows "job_ok j"
  using assms unfolding inv_attempts_def all_jobs_def all_queues_def job_ok_def
  by fastforce

subsection \<open>Counting the failed attempts\<close>

lemma run_append: "run (xs @ ys) s = run ys (run xs s)"
  by (simp add: run_def)

lemma run_Cons: "run (e # es) s = run es (step e s)"
  by (simp add: run_def)

lemma run_Nil: "run [] s = s"
  by (simp add: run_def)

lemma failures_append [simp]: "failures x (xs @ ys) = failures x xs + failures x ys"
  by (simp add: failures_def)

lemma failures_single:
  "failures x [(name, j)] = (if id_job j = x \<and> (name = ''job:retrying'' \<or> name = ''job:failed'') then 1 else 0)"
  by (simp add: failures_def)

lemma failures_unused: "x \<notin> used_ids log \<Longrightarrow> failures x log = 0"
  by (auto simp: failures_def used_ids_def filter_empty_conv)

lemma used_ids_append [simp]: "used_ids (xs @ [(name, j)]) = insert (id_job j) (used_ids xs)"
  by (auto simp: used_ids_def)

lemma counted_shrink:
  assumes "counted T log" and "T' \<subseteq># T"
  shows "counted T' log"
proof -
  have "b \<in># T - {#a#}" if "b \<in># T' - {#a#}" for a b
    using that mset_subset_eq_count[OF assms(2), of b] by (simp only: in_diff_count)
  moreover have "a \<in># T" if "a \<in># T'" for a using assms(2) that by (rule mset_subset_eqD)
  ultimately show ?thesis using assms(1) unfolding counted_def by blast
qed

lemma counted_unique:
  assumes "counted T log" and "a \<in># T" and "b \<in># T - {#a#}"
  shows "id_job (fst a) \<noteq> id_job (fst b)"
  using assms unfolding counted_def by blast

lemma counted_event:
  assumes "counted T log"
    and "\<And>k t. (k, t) \<in># T \<Longrightarrow> failures (id_job k) [(name, j)] = 0"
  shows "counted T (log @ [(name, j)])"
  using assms unfolding counted_def by (auto simp: case_prod_beta)

lemma counted_add:
  assumes "counted T log" and "id_job new \<notin> used_ids log" and "attempts new = 0"
  shows "counted (add_mset (new, 0) T) (log @ [(''job:added'', new)])"
proof -
  have c: "counted T (log @ [(''job:added'', new)])"
    using assms(1) by (rule counted_event) (simp add: failures_single)
  have other: "id_job k \<noteq> id_job new" if "(k, t) \<in># T" for k t
    using assms(1,2) that unfolding counted_def by auto
  have u: "id_job (fst a) \<noteq> id_job (fst b)"
    if "a \<in># add_mset (new, 0) T" and "b \<in># add_mset (new, 0) T - {#a#}" for a b
  proof (cases "a = (new, 0)")
    case True
    with that(2) have "b \<in># T" by simp
    then show ?thesis using True other[of "fst b" "snd b"] by auto
  next
    case False
    with that(1) have a: "a \<in># T" by simp
    from False that(2) have "b \<in># add_mset (new, 0) (T - {#a#})" by simp
    then consider "b = (new, 0)" | "b \<in># T - {#a#}" by auto
    then show ?thesis
    proof cases
      case 1
      then show ?thesis using other[of "fst a" "snd a"] a by auto
    next
      case 2
      then show ?thesis using counted_unique[OF c a] by simp
    qed
  qed
  have "failures (id_job new) log = 0" using assms(2) by (rule failures_unused)
  then have n: "id_job new \<in> used_ids (log @ [(''job:added'', new)])
      \<and> int (failures (id_job new) (log @ [(''job:added'', new)])) + 0 = attempts new"
    using assms(3) by (simp add: failures_single)
  show ?thesis
    unfolding counted_def using u n c[unfolded counted_def] by auto
qed

lemma counted_remove:
  assumes "counted T log" and "(j, t) \<in># T" and "id_job jj = id_job j"
  shows "counted (T - {#(j, t)#}) (log @ [(name, jj)])"
proof -
  have c: "counted (T - {#(j, t)#}) log"
    using assms(1) by (rule counted_shrink) simp
  show ?thesis
  proof (rule counted_event[OF c])
    fix k u assume "(k, u) \<in># T - {#(j, t)#}"
    from counted_unique[OF assms(1,2) this] have "id_job k \<noteq> id_job jj" using assms(3) by simp
    then show "failures (id_job k) [(name, jj)] = 0" by (simp add: failures_single)
  qed
qed

lemma counted_move:
  assumes "counted T log" and "(j, t) \<in># T" and "id_job j' = id_job j"
    and "attempts j' = attempts j + (t' - t) + int (failures (id_job j) [(name, j')])"
  shows "counted (add_mset (j', t') (T - {#(j, t)#})) (log @ [(name, j')])"
proof -
  have c: "counted (T - {#(j, t)#}) (log @ [(name, j')])"
    using assms(1,2,3) by (rule counted_remove)
  have other: "id_job k \<noteq> id_job j'" if "(k, u) \<in># T - {#(j, t)#}" for k u
    using counted_unique[OF assms(1,2) that] assms(3) by simp
  have u: "id_job (fst a) \<noteq> id_job (fst b)"
    if "a \<in># add_mset (j', t') (T - {#(j, t)#})"
      and "b \<in># add_mset (j', t') (T - {#(j, t)#}) - {#a#}" for a b
  proof (cases "a = (j', t')")
    case True
    with that(2) have "b \<in># T - {#(j, t)#}" by simp
    then show ?thesis using True other[of "fst b" "snd b"] by auto
  next
    case False
    with that(1) have a: "a \<in># T - {#(j, t)#}" by simp
    from False that(2) have "b \<in># add_mset (j', t') (T - {#(j, t)#} - {#a#})" by simp
    then consider "b = (j', t')" | "b \<in># T - {#(j, t)#} - {#a#}" by auto
    then show ?thesis
    proof cases
      case 1
      then show ?thesis using other[of "fst a" "snd a"] a by auto
    next
      case 2
      then show ?thesis using counted_unique[OF c a] by simp
    qed
  qed
  from assms(1,2) have old: "id_job j \<in> used_ids log" "int (failures (id_job j) log) + t = attempts j"
    unfolding counted_def by auto
  have n: "id_job j' \<in> used_ids (log @ [(name, j')])
      \<and> int (failures (id_job j') (log @ [(name, j')])) + t' = attempts j'"
    using old assms(3,4) by simp
  show ?thesis
    unfolding counted_def using u n c[unfolded counted_def] by auto
qed

lemma mset_concat_update:
  "distinct (map fst qs) \<Longrightarrow> map_of qs ty = Some q \<Longrightarrow>
     mset (concat (map snd (AList.update ty q' qs))) + mset q = mset (concat (map snd qs)) + mset q'"
proof (induction qs)
  case Nil
  then show ?case by simp
next
  case (Cons a qs)
  show ?case
  proof (cases "fst a = ty")
    case True
    with Cons.prems(2) have "snd a = q" by (cases a) simp
    then show ?thesis using True by (cases a) simp
  next
    case False
    with Cons.prems have "map_of qs ty = Some q" "distinct (map fst qs)" by (cases a, simp)+
    from Cons.IH[OF this(2,1)] show ?thesis using False by (cases a) (simp add: ac_simps)
  qed
qed

lemma mset_push_sorted [simp]: "mset (push_sorted job q) = add_mset job (mset q)"
  by (simp add: push_sorted_def sort_queue_def)

lemma mset_drop_nth: "i < length xs \<Longrightarrow> mset xs = add_mset (xs ! i) (mset (drop_nth i xs))"
proof -
  assume i: "i < length xs"
  have "xs = take i xs @ xs ! i # drop (Suc i) xs" using i by (rule id_take_nth_drop)
  then have "mset xs = mset (take i xs @ xs ! i # drop (Suc i) xs)" by simp
  then show ?thesis by (simp add: drop_nth_def)
qed

lemma queued_addJob:
  assumes "queues_wf (queues s)"
  shows "queued (snd (addJob ty d pr jobId now s)) = add_mset (new_job ty d pr jobId now s) (queued s)"
proof -
  let ?job = "new_job ty d pr jobId now s"
  let ?qs = "if map_of (queues s) ty = None then queues s @ [(ty, [])] else queues s"
  let ?q = "case map_of ?qs ty of None \<Rightarrow> [] | Some q \<Rightarrow> q"
  have d: "distinct (map fst ?qs)"
    using assms by (auto simp: queues_wf_def map_of_eq_None_iff)
  have m: "map_of ?qs ty = Some ?q"
    by (cases "map_of (queues s) ty") (simp_all add: map_add_def)
  have c: "mset (concat (map snd ?qs)) = queued s" by (simp add: queued_def)
  have "queues (snd (addJob ty d pr jobId now s)) = AList.update ty (push_sorted ?job ?q) ?qs"
    by (simp add: addJob_def Let_def)
  then have "queued (snd (addJob ty d pr jobId now s)) + mset ?q
      = mset (concat (map snd ?qs)) + mset (push_sorted ?job ?q)"
    using mset_concat_update[OF d m] by (simp add: queued_def)
  then show ?thesis by (simp add: c)
qed

lemma queued_removeJobFromQueue:
  assumes "queues_wf (queues s)" and "map_of (queues s) (type_job job) = Some (job # q)"
  shows "queued s = add_mset job (queued (removeJobFromQueue job s))"
proof -
  have d: "distinct (map fst (queues s))" using assms(1) by (simp add: queues_wf_def)
  have "queues (removeJobFromQueue job s) = AList.update (type_job job) q (queues s)"
    using assms(2) by (simp add: removeJobFromQueue_def)
  then have "queued (removeJobFromQueue job s) + mset (job # q) = queued s + mset q"
    using mset_concat_update[OF d assms(2)] by (simp add: queued_def)
  then show ?thesis by simp
qed

lemma queued_retry_callback:
  assumes "queues_wf (queues s)"
  shows "queued (retry_callback job s) =
     (case map_of (queues s) (type_job job) of
        None \<Rightarrow> queued s
      | Some q \<Rightarrow> add_mset job (queued s))"
proof (cases "map_of (queues s) (type_job job)")
  case None
  then show ?thesis by (simp add: retry_callback_def queued_def)
next
  case (Some q)
  have d: "distinct (map fst (queues s))" using assms(1) by (simp add: queues_wf_def)
  have "queues (retry_callback job s) = AList.update (type_job job) (push_sorted job q) (queues s)"
    using Some by (simp add: retry_callback_def)
  then have "queued (retry_callback job s) + mset q = queued s + mset (push_sorted job q)"
    using mset_concat_update[OF d Some] by (simp add: queued_def)
  then show ?thesis using Some by simp
qed

lemma queued_clearQueues: "queued (clearQueues s) = {#}"
  by (simp add: queued_def clearQueues_def comp_def case_prod_beta)

lemma queued_frame [simp]:
  "queued (processJob_settled now job res s) = queued s"
  "queued (registerProcessor ty p s) = queued s"
  "queued (s\<lparr>awaiting := a\<rparr>) = queued s"
  "queued (s\<lparr>timers := t\<rparr>) = queued s"
  by (simp_all add: queued_def registerProcessor_def)

lemma queued_processJob_begin:
  "queued (processJob_begin now job P s) = queued (removeJobFromQueue job s)"
  by (simp add: queued_def queues_processJob_begin)

lemma emitted_processJob_begin:
  "emitted (processJob_begin now job P s) = emitted s @ [(''job:processing'', started now job)]"
  by (simp add: processJob_begin_def Let_def emit_def started_def)

lemma counted_step:
  assumes c: "counted (tagged s) (emitted s)" and wf: "queues_wf (queues s)" and f: "fresh_id e s"
  shows "counted (tagged (step e s)) (emitted (step e s))"
proof (cases e)
  case (AddJob ty d pr jobId now)
  let ?job = "new_job ty d pr jobId now s"
  have "tagged (step e s) = add_mset (?job, 0) (tagged s)"
    using AddJob by (simp add: tagged_def queued_addJob[OF wf])
  moreover have "id_job ?job \<notin> used_ids (emitted s)" "attempts ?job = 0"
    using f AddJob by (simp_all add: new_job_def)
  ultimately show ?thesis
    using AddJob counted_add[OF c, of ?job] by simp
next
  case (RegisterProcessor ty p)
  then show ?thesis using c by (simp add: tagged_def registerProcessor_def queued_def)
next
  case (Tick now)
  show ?thesis
  proof (cases "int (length (activeJobs s)) < maxConcurrent (config s) \<and> getNextJob s \<noteq> None")
    case False
    then have "processJobs now s = s" by (auto simp: processJobs_def)
    then show ?thesis using Tick c by simp
  next
    case True
    then obtain job where nx: "getNextJob s = Some job"
      and lim: "int (length (activeJobs s)) < maxConcurrent (config s)" by auto
    from getNextJob_lookup[OF wf nx] obtain q
      where q: "map_of (queues s) (type_job job) = Some (job # q)" by blast
    note rm = queued_removeJobFromQueue[OF wf q]
    have mem: "(job, 0) \<in># tagged s" by (simp add: tagged_def rm)
    show ?thesis
    proof (cases "processors s (type_job job)")
      case None
      have "processJobs now s = removeJobFromQueue job s"
        using lim nx None by (simp add: processJobs_def)
      then have "tagged (step e s) = tagged s - {#(job, 0)#}" "emitted (step e s) = emitted s"
        using Tick by (simp_all add: tagged_def rm)
      then show ?thesis using counted_shrink[OF c, of "tagged s - {#(job, 0)#}"] by simp
    next
      case (Some P)
      have pj: "processJobs now s = processJob_begin now job P s"
        using lim nx Some by (simp add: processJobs_def)
      have t: "tagged (step e s) = add_mset (started now job, 1) (tagged s - {#(job, 0)#})"
        using Tick by (simp add: pj tagged_def queued_processJob_begin awaiting_processJob_begin rm)
      have e: "emitted (step e s) = emitted s @ [(''job:processing'', started now job)]"
        using Tick by (simp add: pj emitted_processJob_begin)
      have "counted (add_mset (started now job, 1) (tagged s - {#(job, 0)#}))
          (emitted s @ [(''job:processing'', started now job)])"
        using c mem by (rule counted_move) (simp_all add: started_def failures_single)
      then show ?thesis by (simp add: t e)
    qed
  qed
next
  case (Settle i now)
  show ?thesis
  proof (cases "i < length (awaiting s)")
    case False
    then show ?thesis using Settle c by simp
  next
    case True
    obtain job res where jr: "awaiting s ! i = (job, res)" by (cases "awaiting s ! i")
    let ?s1 = "s\<lparr>awaiting := drop_nth i (awaiting s)\<rparr>"
    have st: "step e s = processJob_settled now job res ?s1"
      using Settle True jr by simp
    have ts: "tagged s = add_mset (job, 1) (tagged ?s1)"
      using mset_drop_nth[OF True] jr by (simp add: tagged_def)
    then have mem: "(job, 1) \<in># tagged s" and t1: "tagged ?s1 = tagged s - {#(job, 1)#}" by simp_all
    show ?thesis
    proof (cases res)
      case Resolved
      let ?job1 = "job\<lparr>status := COMPLETED, processedAt := Some now, updatedAt := now\<rparr>"
      have "tagged (step e s) = tagged s - {#(job, 1)#}"
        "emitted (step e s) = emitted s @ [(''job:completed'', ?job1)]"
        using Resolved by (simp_all add: st tagged_def[of "processJob_settled _ _ _ _"] t1[symmetric] tagged_def[of ?s1])
          (simp_all add: processJob_settled_def Let_def emit_def)
      moreover have "counted (tagged s - {#(job, 1)#}) (emitted s @ [(''job:completed'', ?job1)])"
        using c mem by (rule counted_remove) simp
      ultimately show ?thesis by simp
    next
      case (Rejected err)
      show ?thesis
      proof (cases "attempts job < maxAttempts job")
        case True
        let ?job2 = "retrying now err job"
        have "tagged (step e s) = add_mset (?job2, 0) (tagged s - {#(job, 1)#})"
          "emitted (step e s) = emitted s @ [(''job:retrying'', ?job2)]"
          using Rejected True
          by (simp_all add: st tagged_def[of "processJob_settled _ _ _ _"] t1[symmetric] tagged_def[of ?s1]
              settled_Rejected_retry)
        moreover have "counted (add_mset (?job2, 0) (tagged s - {#(job, 1)#}))
            (emitted s @ [(''job:retrying'', ?job2)])"
          using c mem by (rule counted_move) (simp_all add: retrying_def failures_single)
        ultimately show ?thesis by simp
      next
        case False
        let ?job2 = "job\<lparr>error := Some (errorMessage err), updatedAt := now, status := FAILED\<rparr>"
        have "tagged (step e s) = tagged s - {#(job, 1)#}"
          "emitted (step e s) = emitted s @ [(''job:failed'', ?job2)]"
          using Rejected False
          by (simp_all add: st tagged_def[of "processJob_settled _ _ _ _"] t1[symmetric] tagged_def[of ?s1])
            (simp_all add: processJob_settled_def Let_def emit_def)
        moreover have "counted (tagged s - {#(job, 1)#}) (emitted s @ [(''job:failed'', ?job2)])"
          using c mem by (rule counted_remove) simp
        ultimately show ?thesis by simp
      qed
    qed
  qed
next
  case (Fire i)
  show ?thesis
  proof (cases "i < length (timers s)")
    case False
    then show ?thesis using Fire c by simp
  next
    case True
    obtain job dl where jd: "timers s ! i = (job, dl)" by (cases "timers s ! i")
    let ?s1 = "s\<lparr>timers := drop_nth i (timers s)\<rparr>"
    have st: "step e s = retry_callback job ?s1" using Fire True jd by simp
    have wf1: "queues_wf (queues ?s1)" using wf by simp
    have ts: "tagged s = add_mset (job, 0) (tagged ?s1)"
      using mset_drop_nth[OF True] jd by (simp add: tagged_def)
    have "tagged (step e s) \<subseteq># tagged s"
      unfolding st ts
      by (simp add: tagged_def queued_retry_callback[OF wf1] split: option.splits)
    moreover have "emitted (step e s) = emitted s" by (simp add: st)
    ultimately show ?thesis using counted_shrink[OF c] by simp
  qed
next
  case ClearQueues
  have "tagged (step e s) \<subseteq># tagged s"
    using ClearQueues by (simp add: tagged_def queued_clearQueues)
  then show ?thesis using ClearQueues counted_shrink[OF c] by simp
qed

lemma counted_run:
  assumes "fresh_ids evs (constructor cfg)"
  shows "counted (tagged (run evs (constructor cfg))) (emitted (run evs (constructor cfg)))"
proof -
  have "counted (tagged s) (emitted s) \<Longrightarrow> queues_wf (queues s) \<Longrightarrow> fresh_ids evs s \<Longrightarrow>
      counted (tagged (run evs s)) (emitted (run evs s))" for s :: "'a QueueService"
  proof (induction evs arbitrary: s)
    case Nil
    then show ?case by (simp add: run_Nil)
  next
    case (Cons e evs)
    have "counted (tagged (step e s)) (emitted (step e s))"
      using Cons.prems by (intro counted_step) simp_all
    moreover have "queues_wf (queues (step e s))" using Cons.prems(2) by (rule queues_wf_step)
    ultimately show ?case using Cons.IH Cons.prems(3) by (simp add: run_Cons)
  qed
  moreover have "counted (tagged (constructor cfg :: 'a QueueService)) (emitted (constructor cfg :: 'a QueueService))"
    by (simp add: counted_def tagged_def queued_def constructor_def)
  moreover have "queues_wf (queues (constructor cfg :: 'a QueueService))"
    by (simp add: queues_wf_def all_queues_def constructor_def)
  ultimately show ?thesis using assms by blast
qed

lemma failures_step:
  "failures jobId (emitted (step ev s)) = failures jobId (emitted s) + (if fails ev s jobId then 1 else 0)"
proof (cases ev)
  case (Settle i now)
  show ?thesis
  proof (cases "i < length (awaiting s)")
    case True
    obtain job res where jr: "awaiting s ! i = (job, res)" by (cases "awaiting s ! i")
    show ?thesis using Settle True jr
      by (cases res) (auto simp: processJob_settled_def Let_def emit_def failures_def)
  next
    case False
    then show ?thesis using Settle by simp
  qed
next
  case (Tick now)
  then show ?thesis
    by (auto simp: processJobs_def processJob_begin_def removeJobFromQueue_def Let_def emit_def
        failures_def split: option.splits)
next
  case (Fire i)
  then show ?thesis
    by (auto simp: retry_callback_def Let_def failures_def split: option.splits)
qed (auto simp: addJob_def Let_def emit_def failures_def registerProcessor_def clearQueues_def)

lemma tagged_awaiting: "i < length (awaiting s) \<Longrightarrow> awaiting s ! i = (job, res) \<Longrightarrow> (job, 1) \<in># tagged s"
  using mset_drop_nth[of i "awaiting s"] by (simp add: tagged_def)

lemma settle_failure:
  assumes "i < length (awaiting s)" and "awaiting s ! i = (job, Rejected e)"
  shows "emitted (step (Settle i now) s) = emitted s @
           [(if attempts job < maxAttempts job then ''job:retrying'' else ''job:failed'',
             job\<lparr>error := Some (errorMessage e), updatedAt := now,
                 status := (if attempts job < maxAttempts job then RETRYING else FAILED)\<rparr>)]"
    and "timers (step (Settle i now) s) =
           (if attempts job < maxAttempts job
            then timers s @ [(retrying now e job, retryDelay (config s) * attempts job)]
            else timers s)"
    and "\<not> attempts job < maxAttempts job \<Longrightarrow>
           id_job job \<notin> fst ` set (activeJobs (step (Settle i now) s))
           \<and> tagged (step (Settle i now) s) = tagged s - {#(job, 1)#}"
proof -
  let ?s1 = "s\<lparr>awaiting := drop_nth i (awaiting s)\<rparr>"
  have st: "step (Settle i now) s = processJob_settled now job (Rejected e) ?s1"
    using assms by simp
  have ts: "tagged s = add_mset (job, 1) (tagged ?s1)"
    using mset_drop_nth[OF assms(1)] assms(2) by (simp add: tagged_def)
  show "emitted (step (Settle i now) s) = emitted s @
           [(if attempts job < maxAttempts job then ''job:retrying'' else ''job:failed'',
             job\<lparr>error := Some (errorMessage e), updatedAt := now,
                 status := (if attempts job < maxAttempts job then RETRYING else FAILED)\<rparr>)]"
    unfolding st by (simp add: processJob_settled_def Let_def emit_def)
  show "timers (step (Settle i now) s) =
           (if attempts job < maxAttempts job
            then timers s @ [(retrying now e job, retryDelay (config s) * attempts job)]
            else timers s)"
    unfolding st by (simp add: processJob_settled_def Let_def emit_def retrying_def)
  show "id_job job \<notin> fst ` set (activeJobs (step (Settle i now) s))
           \<and> tagged (step (Settle i now) s) = tagged s - {#(job, 1)#}"
    if "\<not> attempts job < maxAttempts job"
  proof -
    have "activeJobs (step (Settle i now) s) = AList.delete (id_job job)
        (write_back (job\<lparr>error := Some (errorMessage e), updatedAt := now, status := FAILED\<rparr>) (activeJobs s))"
      unfolding st using that by (simp add: processJob_settled_def Let_def emit_def)
    then have "id_job job \<notin> fst ` set (activeJobs (step (Settle i now) s))"
      by (simp add: keys_delete)
    moreover have "tagged (step (Settle i now) s) = tagged ?s1"
      unfolding st using that
      by (simp add: tagged_def) (simp add: processJob_settled_def Let_def emit_def)
    ultimately show ?thesis by (simp add: ts)
  qed
qed

text \<open>
  The events of a job are told from those of the others by its id. When an id is given to two
  jobs, the failure of the first is counted for the second as well: the second job is at its
  first attempt while one failure is reported for its id.
\<close>

lemma reused_id_not_counted:
  "\<not> fresh_ids reused_id (constructor default_config)
   \<and> map (\<lambda>(j, r). (id_job j, createdAt j, attempts j, r))
        (awaiting (run reused_id (constructor default_config)))
      = [(''job_1'', 11, 1, Rejected (ErrorObject ''boom''))]
   \<and> failures ''job_1'' (emitted (run reused_id (constructor default_config))) = 1"
  by (simp add: reused_id_def used_ids_def failures_def always_throws_def eval_defs)

lemma or_default_pos: "0 < d \<Longrightarrow> \<forall>n. v = Some n \<longrightarrow> 0 \<le> n \<Longrightarrow> 0 < or_default v d"
  by (auto simp: or_default_def split: option.splits)

text \<open>
  Claim C3, as stated, fails: \<open>retryAttempts = -1\<close> is truthy and becomes \<open>maxAttempts\<close>,
  so the first attempt already exceeds it, and the job fails for good with 1 attempt against a
  maximum of -1. What the processor threw was not an \<^verbatim>\<open>Error\<close>, and the error field holds
  \<^verbatim>\<open>Unknown error\<close>.
\<close>

theorem C3_counterexample:
  "map (\<lambda>(n, j). (n, status j, attempts j, maxAttempts j, error j))
     (emitted (run one_failure (constructor negative_retry_config)))
   = [(''job:added'', PENDING, 0, - 1, None),
      (''job:processing'', PROCESSING, 1, - 1, None),
      (''job:failed'', FAILED, 1, - 1, Some ''Unknown error'')]
   \<and> \<not> (\<forall>j\<in>set (all_jobs (run one_failure (constructor negative_retry_config))).
           attempts j \<le> maxAttempts j)"
proof -
  have e: "map (\<lambda>(n, j). (n, status j, attempts j, maxAttempts j, error j))
     (emitted (run one_failure (constructor negative_retry_config)))
   = [(''job:added'', PENDING, 0, - 1, None),
      (''job:processing'', PROCESSING, 1, - 1, None),
      (''job:failed'', FAILED, 1, - 1, Some ''Unknown error'')]"
    by (simp add: one_failure_def negative_retry_config_def always_throws_def eval_defs)
  have "snd (last (emitted (run one_failure (constructor negative_retry_config))))
          \<in> set (all_jobs (run one_failure (constructor negative_retry_config)))"
    by (simp add: one_failure_def negative_retry_config_def always_throws_def all_jobs_def eval_defs)
  moreover have "\<not> attempts (snd (last (emitted (run one_failure (constructor negative_retry_config)))))
           \<le> maxAttempts (snd (last (emitted (run one_failure (constructor negative_retry_config)))))"
    by (simp add: one_failure_def negative_retry_config_def always_throws_def eval_defs)
  ultimately show ?thesis using e by blast
qed

text \<open>
  Claim C3, amended. When the scheduler is constructed with a number of attempts that is not
  negative, every job the scheduler holds or has emitted, in every state it can reach, has
  \<open>attempts \<le> maxAttempts\<close>, and \<open>attempts = maxAttempts\<close> when it is FAILED. In every such
  state, whenever an attempt of a job fails (its invocation settles, rejected), the job has
  \<open>attempts \<le> maxAttempts\<close>; it becomes RETRYING, with a retry timer, when
  \<open>attempts < maxAttempts\<close>, and FAILED, with no timer and no entry in the active map, when
  \<open>attempts = maxAttempts\<close>; its error field is the message of what was thrown at this attempt,
  or \<^verbatim>\<open>Unknown error\<close> when that was not an \<^verbatim>\<open>Error\<close>. The failed attempts of a job
  are counted by the events \<^verbatim>\<open>job:retrying\<close> and \<^verbatim>\<open>job:failed\<close> that carry its id:
  one more each time one of its invocations is rejected, and at no other event. Ids being new for
  each job, as \<^verbatim>\<open>generateJobId\<close> makes them, \<open>attempts\<close> is the number of the failed
  attempts of the job, the attempt under way included: the \<open>n\<close>-th failure of a job with
  \<open>maxAttempts = k\<close> leaves it RETRYING when \<open>n < k\<close> and FAILED with \<open>attempts = k\<close> when
  \<open>n = k\<close>, and the scheduler then holds no job of that id, so there is no further attempt.
\<close>

theorem C3_attempts_bounded:
  fixes cfg :: QueueConfig
  assumes "\<forall>n. retryAttempts_opt cfg = Some n \<longrightarrow> 0 \<le> n"
    and "s = run evs (constructor cfg)"
  shows "(\<forall>j\<in>set (all_jobs s).
            attempts j \<le> maxAttempts j \<and> (status j = FAILED \<longrightarrow> attempts j = maxAttempts j))
       \<and> (\<forall>i job e. i < length (awaiting s) \<and> awaiting s ! i = (job, Rejected e) \<longrightarrow>
              attempts job \<le> maxAttempts job
              \<and> emitted (step (Settle i now) s) = emitted s @
                  [(if attempts job < maxAttempts job then ''job:retrying'' else ''job:failed'',
                    job\<lparr>error := Some (errorMessage e), updatedAt := now,
                        status := (if attempts job < maxAttempts job then RETRYING else FAILED)\<rparr>)]
              \<and> timers (step (Settle i now) s) =
                  (if attempts job < maxAttempts job
                   then timers s @ [(retrying now e job, retryDelay (config s) * attempts job)]
                   else timers s)
              \<and> (attempts job = maxAttempts job \<longrightarrow>
                    id_job job \<notin> fst ` set (activeJobs (step (Settle i now) s)))
              \<and> (fresh_ids evs (constructor cfg) \<longrightarrow>
                    attempts job = int (failures (id_job job) (emitted s)) + 1
                    \<and> (attempts job = maxAttempts job \<longrightarrow>
                          (\<forall>(j, t)\<in>#tagged (step (Settle i now) s). id_job j \<noteq> id_job job))))
       \<and> (\<forall>ev jobId. failures jobId (emitted (step ev s))
              = failures jobId (emitted s) + (if fails ev s jobId then 1 else 0))
       \<and> (fresh_ids evs (constructor cfg) \<longrightarrow>
            (\<forall>(j, t)\<in>#tagged s. attempts j = int (failures (id_job j) (emitted s)) + t))"
proof -
  have kpos: "0 < retryAttempts (config (constructor cfg :: 'a QueueService))"
    using assms(1) by (simp add: constructor_def or_default_pos)
  have inv: "inv_attempts s" unfolding assms(2) using kpos by (rule inv_attempts_run)
  have part1: "\<forall>j\<in>set (all_jobs s).
            attempts j \<le> maxAttempts j \<and> (status j = FAILED \<longrightarrow> attempts j = maxAttempts j)"
    using inv_attempts_all_jobs[OF inv] by (simp add: job_ok_def)
  have cnt: "counted (tagged s) (emitted s)" if "fresh_ids evs (constructor cfg :: 'a QueueService)"
    unfolding assms(2) using that by (rule counted_run)
  have part4: "\<forall>(j, t)\<in>#tagged s. attempts j = int (failures (id_job j) (emitted s)) + t"
    if "fresh_ids evs (constructor cfg :: 'a QueueService)"
    using cnt[OF that] unfolding counted_def by auto
  have part2: "attempts job \<le> maxAttempts job
              \<and> emitted (step (Settle i now) s) = emitted s @
                  [(if attempts job < maxAttempts job then ''job:retrying'' else ''job:failed'',
                    job\<lparr>error := Some (errorMessage e), updatedAt := now,
                        status := (if attempts job < maxAttempts job then RETRYING else FAILED)\<rparr>)]
              \<and> timers (step (Settle i now) s) =
                  (if attempts job < maxAttempts job
                   then timers s @ [(retrying now e job, retryDelay (config s) * attempts job)]
                   else timers s)
              \<and> (attempts job = maxAttempts job \<longrightarrow>
                    id_job job \<notin> fst ` set (activeJobs (step (Settle i now) s)))
              \<and> (fresh_ids evs (constructor cfg) \<longrightarrow>
                    attempts job = int (failures (id_job job) (emitted s)) + 1
                    \<and> (attempts job = maxAttempts job \<longrightarrow>
                          (\<forall>(j, t)\<in>#tagged (step (Settle i now) s). id_job j \<noteq> id_job job)))"
    if i: "i < length (awaiting s)" and jr: "awaiting s ! i = (job, Rejected e)" for i job e
  proof -
    have mem: "(job, 1) \<in># tagged s" using i jr by (rule tagged_awaiting)
    have "(job, Rejected e) \<in> set (awaiting s)" using i jr by (metis nth_mem)
    with inv have le: "attempts job \<le> maxAttempts job" unfolding inv_attempts_def by blast
    note sf = settle_failure[OF i jr, of now]
    have k: "id_job job \<notin> fst ` set (activeJobs (step (Settle i now) s))"
      if "attempts job = maxAttempts job"
      using sf(3) that by simp
    have n: "attempts job = int (failures (id_job job) (emitted s)) + 1"
      if "fresh_ids evs (constructor cfg :: 'a QueueService)"
      using part4[OF that] mem by auto
    have gone: "\<forall>(j, t)\<in>#tagged (step (Settle i now) s). id_job j \<noteq> id_job job"
      if fr: "fresh_ids evs (constructor cfg :: 'a QueueService)" and "attempts job = maxAttempts job"
    proof -
      from that have nl: "\<not> attempts job < maxAttempts job" by simp
      from sf(3)[OF nl] have t: "tagged (step (Settle i now) s) = tagged s - {#(job, 1)#}" by simp
      have "id_job (fst b) \<noteq> id_job job" if "b \<in># tagged s - {#(job, 1)#}" for b
        using counted_unique[OF cnt[OF fr] mem that] by simp
      then show ?thesis unfolding t by auto
    qed
    show ?thesis using le sf(1,2) k n gone by blast
  qed
  have part3: "\<forall>ev jobId. failures jobId (emitted (step ev s))
              = failures jobId (emitted s) + (if fails ev s jobId then 1 else 0)"
    by (simp only: failures_step) simp
  show ?thesis using part1 part2 part3 part4 by blast
qed

theorem C3_witness:
  "retryAttempts_opt default_config = None
   \<and> fresh_ids first_attempt (constructor default_config)
   \<and> fresh_ids third_attempt (constructor default_config)
   \<and> map (\<lambda>(j, r). (id_job j, attempts j, maxAttempts j, r))
        (awaiting (run first_attempt (constructor default_config)))
      = [(''job_1'', 1, 3, Rejected (ErrorObject ''earlier''))]
   \<and> failures ''job_1'' (emitted (run first_attempt (constructor default_config))) = 0
   \<and> map (\<lambda>(j, d). (id_job j, status j, attempts j, error j, d))
        (timers (step (Settle 0 20) (run first_attempt (constructor default_config))))
      = [(''job_1'', RETRYING, 1, Some ''earlier'', 1000)]
   \<and> map (\<lambda>(j, r). (id_job j, attempts j, maxAttempts j, r))
        (awaiting (run third_attempt (constructor default_config)))
      = [(''job_1'', 3, 3, Rejected (ErrorObject ''third''))]
   \<and> failures ''job_1'' (emitted (run third_attempt (constructor default_config))) = 2
   \<and> map (\<lambda>(n, j). (n, status j, attempts j, error j))
        (emitted (step (Settle 0 20) (run third_attempt (constructor default_config))))
      = [(''job:added'', PENDING, 0, None),
         (''job:processing'', PROCESSING, 1, None),
         (''job:retrying'', RETRYING, 1, Some ''earlier''),
         (''job:processing'', PROCESSING, 2, Some ''earlier''),
         (''job:retrying'', RETRYING, 2, Some ''earlier''),
         (''job:processing'', PROCESSING, 3, Some ''earlier''),
         (''job:failed'', FAILED, 3, Some ''third'')]
   \<and> failures ''job_1'' (emitted (step (Settle 0 20) (run third_attempt (constructor default_config)))) = 3
   \<and> timers (step (Settle 0 20) (run third_attempt (constructor default_config))) = []
   \<and> tagged (step (Settle 0 20) (run third_attempt (constructor default_config))) = {#}
   \<and> list_all (\<lambda>j. attempts j \<le> maxAttempts j \<and> (status j = FAILED \<longrightarrow> attempts j = maxAttempts j))
        (all_jobs (run scenario_B (constructor default_config)))"
proof -
  let ?c = "constructor default_config :: unit QueueService"
  let ?s1 = "run first_attempt ?c"
  let ?s3 = "run third_attempt ?c"
  have h: "\<forall>n. retryAttempts_opt default_config = Some n \<longrightarrow> 0 \<le> n"
    and n: "retryAttempts_opt default_config = None"
    by (simp_all add: default_config_def)
  have f1: "fresh_ids first_attempt ?c"
    by (simp add: first_attempt_def used_ids_def always_throws_def eval_defs)
  have f3: "fresh_ids third_attempt ?c"
    by (simp add: third_attempt_def first_attempt_def used_ids_def always_throws_def eval_defs)
  have a1: "map (\<lambda>(j, r). (id_job j, attempts j, maxAttempts j, r)) (awaiting ?s1)
      = [(''job_1'', 1, 3, Rejected (ErrorObject ''earlier''))]"
    and e1: "failures ''job_1'' (emitted ?s1) = 0"
    and c1: "retryDelay (config ?c) = 1000" and t1: "timers ?s1 = []"
    by (simp_all add: first_attempt_def always_throws_def failures_def eval_defs)
  have a3: "map (\<lambda>(j, r). (id_job j, attempts j, maxAttempts j, r)) (awaiting ?s3)
      = [(''job_1'', 3, 3, Rejected (ErrorObject ''third''))]"
    and e3: "failures ''job_1'' (emitted ?s3) = 2"
    and l3: "map (\<lambda>(n, j). (n, status j, attempts j, error j)) (emitted ?s3)
      = [(''job:added'', PENDING, 0, None),
         (''job:processing'', PROCESSING, 1, None),
         (''job:retrying'', RETRYING, 1, Some ''earlier''),
         (''job:processing'', PROCESSING, 2, Some ''earlier''),
         (''job:retrying'', RETRYING, 2, Some ''earlier''),
         (''job:processing'', PROCESSING, 3, Some ''earlier'')]"
    and t3: "timers ?s3 = []" and q3: "tagged ?s3 = {#(fst (awaiting ?s3 ! 0), 1)#}"
    by (simp_all add: third_attempt_def first_attempt_def always_throws_def failures_def
        tagged_def queued_def eval_defs)
  let ?j1 = "fst (awaiting ?s1 ! 0)"
  let ?j3 = "fst (awaiting ?s3 ! 0)"
  have i1: "0 < length (awaiting ?s1)" "awaiting ?s1 ! 0 = (?j1, Rejected (ErrorObject ''earlier''))"
    and j1: "id_job ?j1 = ''job_1''" "attempts ?j1 = 1" "maxAttempts ?j1 = 3"
    using a1 by (auto simp: map_eq_Cons_conv)
  have i3: "0 < length (awaiting ?s3)" "awaiting ?s3 ! 0 = (?j3, Rejected (ErrorObject ''third''))"
    and j3: "id_job ?j3 = ''job_1''" "attempts ?j3 = 3" "maxAttempts ?j3 = 3"
    using a3 by (auto simp: map_eq_Cons_conv)
  note m1 = C3_attempts_bounded[OF h refl, of first_attempt 20, THEN conjunct2, THEN conjunct1,
      rule_format, of 0 ?j1 "ErrorObject ''earlier''", OF conjI, OF i1]
  note m3 = C3_attempts_bounded[OF h refl, of third_attempt 20, THEN conjunct2, THEN conjunct1,
      rule_format, of 0 ?j3 "ErrorObject ''third''", OF conjI, OF i3]
  from m1 have tq: "timers (step (Settle 0 20) ?s1) =
      (if attempts ?j1 < maxAttempts ?j1
       then timers ?s1 @ [(retrying 20 (ErrorObject ''earlier'') ?j1, retryDelay (config ?s1) * attempts ?j1)]
       else timers ?s1)"
    by (elim conjE)
  have r1: "map (\<lambda>(j, d). (id_job j, status j, attempts j, error j, d))
        (timers (step (Settle 0 20) ?s1)) = [(''job_1'', RETRYING, 1, Some ''earlier'', 1000)]"
    unfolding tq by (simp add: j1 c1 t1 retrying_def)
  from m3 have em: "emitted (step (Settle 0 20) ?s3) = emitted ?s3 @
      [(if attempts ?j3 < maxAttempts ?j3 then ''job:retrying'' else ''job:failed'',
        ?j3\<lparr>error := Some (errorMessage (ErrorObject ''third'')), updatedAt := 20,
            status := (if attempts ?j3 < maxAttempts ?j3 then RETRYING else FAILED)\<rparr>)]"
    by (elim conjE)
  from m3 have tm: "timers (step (Settle 0 20) ?s3) =
      (if attempts ?j3 < maxAttempts ?j3
       then timers ?s3 @ [(retrying 20 (ErrorObject ''third'') ?j3, retryDelay (config ?s3) * attempts ?j3)]
       else timers ?s3)"
    by (elim conjE)
  have r3: "map (\<lambda>(n, j). (n, status j, attempts j, error j)) (emitted (step (Settle 0 20) ?s3))
      = [(''job:added'', PENDING, 0, None),
         (''job:processing'', PROCESSING, 1, None),
         (''job:retrying'', RETRYING, 1, Some ''earlier''),
         (''job:processing'', PROCESSING, 2, Some ''earlier''),
         (''job:retrying'', RETRYING, 2, Some ''earlier''),
         (''job:processing'', PROCESSING, 3, Some ''earlier''),
         (''job:failed'', FAILED, 3, Some ''third'')]"
    unfolding em by (simp add: l3 j3)
  have sn: "snd (awaiting ?s3 ! 0) = Rejected (ErrorObject ''third'')"
    using i3(2) by (metis snd_conv)
  have fl: "fails (Settle 0 20) ?s3 ''job_1''" using i3(1) j3(1) by (simp add: sn)
  have r3f: "failures ''job_1'' (emitted (step (Settle 0 20) ?s3)) = 3"
    unfolding C3_attempts_bounded[OF h refl, of third_attempt 20, THEN conjunct2, THEN conjunct2, THEN conjunct1,
        rule_format, of "''job_1''" "Settle 0 20"] e3
    using fl by simp
  have r3t: "timers (step (Settle 0 20) ?s3) = []" unfolding tm by (simp add: j3 t3)
  have nl: "\<not> attempts ?j3 < maxAttempts ?j3" by (simp add: j3)
  have g: "tagged (step (Settle 0 20) ?s3) = {#}"
    unfolding settle_failure(3)[OF i3 nl, of 20, THEN conjunct2] q3 by simp
  from C3_attempts_bounded[OF h refl, of scenario_B 20, THEN conjunct1]
  have la: "list_all (\<lambda>j. attempts j \<le> maxAttempts j \<and> (status j = FAILED \<longrightarrow> attempts j = maxAttempts j))
        (all_jobs (run scenario_B ?c))"
    by (simp only: list_all_iff)
  show ?thesis using n f1 f3 a1 e1 r1 a3 e3 r3 r3f r3t g la by (intro conjI)
qed

section \<open>NotificationService: sending a notification\<close>

lemma channels_constructor_n:
  "channels (constructor_n env :: 'a NotificationService) =
     (''websocket'', websocket_channel) #
     (case env of None \<Rightarrow> [] | Some url \<Rightarrow> if url = [] then [] else [(''webhook'', webhook_channel url)])"
  by (simp add: constructor_n_def initializeDefaultChannels_def addChannel_def Let_def
      websocket_channel_def webhook_channel_def split: option.splits)

lemma constructor_n_idle:
  "queue (constructor_n env) = []" "\<not> processing_n (constructor_n env)"
  "delivering (constructor_n env) = None" "trace (constructor_n env) = []"
  by (simp_all add: constructor_n_def initializeDefaultChannels_def addChannel_def Let_def
      split: option.splits)

lemma settle_all_idle: "delivering s = None \<Longrightarrow> settle_all net s = s"
  by (subst settle_all.simps) simp

lemma settle_all_step: "delivering s = Some x \<Longrightarrow> settle_all net s = settle_all net (deliveries_settle net s)"
  by (subst settle_all.simps) simp

lemma sendNotification_idle:
  assumes "\<not> processing_n s" and "queue s = []"
  shows "sendNotification now p s =
     s\<lparr>queue := [], processing_n := True, drain_owner := Some (stamped now p),
        trace := trace s @ concat (map (\<lambda>c. invoke c (stamped now p))
                   (filter (\<lambda>c. receives (snd c) (stamped now p)) (channels s))),
        delivering := Some (stamped now p, filter (\<lambda>c. receives (snd c) (stamped now p)) (channels s))\<rparr>"
  using assms by (simp add: sendNotification_def drain_next_def Let_def)

lemma sendNotification_awaited_idle:
  assumes "\<not> processing_n s" and "queue s = []" and "delivering s = None"
  shows "sendNotification_awaited net now p s =
     s\<lparr>queue := [], processing_n := False, drain_owner := None, delivering := None,
        trace := trace s
          @ concat (map (\<lambda>c. invoke c (stamped now p))
              (filter (\<lambda>c. receives (snd c) (stamped now p)) (channels s)))
          @ map (\<lambda>c. Settled (fst c) (stamped now p) (delivered net (snd c) (stamped now p)))
              (filter (\<lambda>c. receives (snd c) (stamped now p)) (channels s))
          @ [Emitted ''notification'' (stamped now p), Resolves (stamped now p)]\<rparr>"
proof -
  let ?s1 = "sendNotification now p s"
  have d: "delivering ?s1 = Some (stamped now p, filter (\<lambda>c. receives (snd c) (stamped now p)) (channels s))"
    by (simp add: sendNotification_idle[OF assms(1,2)])
  have "settle_all net ?s1 = settle_all net (deliveries_settle net ?s1)"
    using d by (rule settle_all_step)
  also have "deliveries_settle net ?s1 = s\<lparr>queue := [], processing_n := False, drain_owner := None, delivering := None,
        trace := trace s
          @ concat (map (\<lambda>c. invoke c (stamped now p))
              (filter (\<lambda>c. receives (snd c) (stamped now p)) (channels s)))
          @ map (\<lambda>c. Settled (fst c) (stamped now p) (delivered net (snd c) (stamped now p)))
              (filter (\<lambda>c. receives (snd c) (stamped now p)) (channels s))
          @ [Emitted ''notification'' (stamped now p), Resolves (stamped now p)]\<rparr>"
    by (simp add: sendNotification_idle[OF assms(1,2)] deliveries_settle_def drain_next_def
        send_returns_def Let_def)
  also have "settle_all net \<dots> = \<dots>" by (rule settle_all_idle) simp
  finally show ?thesis by (simp add: sendNotification_awaited_def)
qed

lemma sendNotification_busy:
  assumes "processing_n s"
  shows "sendNotification now p s =
     s\<lparr>queue := queue s @ [stamped now p],
        trace := trace s @ [Emitted ''notification'' (stamped now p), Resolves (stamped now p)]\<rparr>"
  using assms by (simp add: sendNotification_def send_returns_def Let_def)

lemma Invoked_in_invoke:
  "Invoked cid q \<in> set (concat (map (\<lambda>c. invoke c n) targets)) \<longleftrightarrow> q = n \<and> cid \<in> fst ` set targets"
  by (induction targets) (auto simp: invoke_def split: ChannelType.splits)

lemma drain_next_invokes:
  assumes "Invoked cid q \<in> set (trace (drain_next s))"
  shows "Invoked cid q \<in> set (trace s) \<or> (\<exists>ch. (cid, ch) \<in> set (channels s) \<and> receives ch q)"
proof (cases "queue s")
  case Nil
  then show ?thesis
    using assms by (auto simp: drain_next_def Let_def send_returns_def split: option.splits)
next
  case (Cons n rest)
  let ?targets = "filter (\<lambda>c. receives (snd c) n) (channels s)"
  have "trace (drain_next s) = trace s @ concat (map (\<lambda>c. invoke c n) ?targets)"
    using Cons by (simp add: drain_next_def Let_def)
  with assms have "Invoked cid q \<in> set (trace s) \<or>
      Invoked cid q \<in> set (concat (map (\<lambda>c. invoke c n) ?targets))"
    by (simp only: set_append Un_iff)
  then show ?thesis
  proof
    assume "Invoked cid q \<in> set (concat (map (\<lambda>c. invoke c n) ?targets))"
    then have "q = n" and "cid \<in> fst ` set ?targets" by (simp_all only: Invoked_in_invoke)
    then show ?thesis by auto
  qed simp
qed

lemma sendNotification_invokes:
  assumes "Invoked cid q \<in> set (trace (sendNotification now p s))"
  shows "Invoked cid q \<in> set (trace s) \<or> (\<exists>ch. (cid, ch) \<in> set (channels s) \<and> receives ch q)"
proof (cases "processing_n s")
  case True
  then show ?thesis using assms by (simp add: sendNotification_busy)
next
  case False
  then have "sendNotification now p s =
      drain_next (s\<lparr>queue := queue s @ [stamped now p], processing_n := True,
        drain_owner := Some (stamped now p)\<rparr>)"
    by (simp add: sendNotification_def Let_def)
  with assms drain_next_invokes[of cid q "s\<lparr>queue := queue s @ [stamped now p], processing_n := True,
        drain_owner := Some (stamped now p)\<rparr>"]
  show ?thesis by simp
qed

lemma deliveries_settle_invokes:
  assumes "Invoked cid q \<in> set (trace (deliveries_settle net s))"
  shows "Invoked cid q \<in> set (trace s) \<or> (\<exists>ch. (cid, ch) \<in> set (channels s) \<and> receives ch q)"
proof (cases "delivering s")
  case None
  then show ?thesis using assms by (simp add: deliveries_settle_def)
next
  case (Some x)
  obtain n targets where x: "x = (n, targets)" by (cases x)
  let ?s1 = "s\<lparr>trace := trace s @ map (\<lambda>c. Settled (fst c) n (delivered net (snd c) n)) targets,
               delivering := None\<rparr>"
  have "deliveries_settle net s = drain_next ?s1"
    using Some x by (simp add: deliveries_settle_def)
  with assms drain_next_invokes[of cid q ?s1] show ?thesis by auto
qed

lemma at_rest_drain_next:
  "processing_n s \<Longrightarrow> delivering s = None \<Longrightarrow> at_rest (drain_next s)"
  by (auto simp: at_rest_def drain_next_def Let_def send_returns_def split: list.splits option.splits)

lemma at_rest_step:
  assumes "at_rest s"
  shows "at_rest (step_n net e s)"
proof (cases e)
  case (Send now payload)
  show ?thesis
  proof (cases "processing_n s")
    case True
    then show ?thesis using Send by (simp add: sendNotification_busy at_rest_def)
  next
    case False
    with assms have "queue s = []" by (simp add: at_rest_def)
    then show ?thesis using Send False by (simp add: sendNotification_idle at_rest_def)
  qed
next
  case DeliveriesSettle
  show ?thesis
  proof (cases "delivering s")
    case None
    then show ?thesis using DeliveriesSettle assms by (simp add: deliveries_settle_def)
  next
    case (Some x)
    obtain n targets where x: "x = (n, targets)" by (cases x)
    have "processing_n s" using Some assms by (auto simp: at_rest_def)
    then show ?thesis
      using DeliveriesSettle Some x
      by (auto simp: deliveries_settle_def intro!: at_rest_drain_next)
  qed
qed (use assms in \<open>simp_all add: at_rest_def addChannel_def removeChannel_def clearQueue_def\<close>)

lemma at_rest_run: "at_rest (run_n net evs (constructor_n env))"
proof -
  have "at_rest s \<Longrightarrow> at_rest (fold (step_n net) evs s)" for s :: "'a NotificationService"
    by (induction evs arbitrary: s) (simp_all add: at_rest_step)
  moreover have "at_rest (constructor_n env :: 'a NotificationService)"
    by (simp add: at_rest_def constructor_n_idle)
  ultimately show ?thesis by (simp add: run_n_def)
qed

lemmas eval_defs_n = run_n_def constructor_n_def initializeDefaultChannels_def addChannel_def
  removeChannel_def sendNotification_def drain_next_def deliveries_settle_def send_returns_def
  stamped_def receives_def invoke_def delivered_def clearQueue_def Let_def proposal_def

lemma returns_simps [simp]:
  "returns [] = []"
  "returns (q # qs) = Emitted ''notification'' q # Resolves q # returns qs"
  by (simp_all add: returns_def)

lemma run_n_Cons: "run_n net (e # evs) s = run_n net evs (step_n net e s)"
  by (simp add: run_n_def)

lemma run_n_Nil: "run_n net [] s = s"
  by (simp add: run_n_def)

lemma run_n_append: "run_n net (xs @ ys) s = run_n net ys (run_n net xs s)"
  by (simp add: run_n_def)

lemma trace_drain_next:
  "trace (drain_next s) = trace s @
     (case queue s of
        [] \<Rightarrow> (case drain_owner s of None \<Rightarrow> [] | Some q \<Rightarrow> [Emitted ''notification'' q, Resolves q])
      | m # rest \<Rightarrow> concat (map (\<lambda>c. invoke c m) (receivers m s)))"
  by (simp add: drain_next_def Let_def send_returns_def receivers_def split: list.splits option.splits)

lemma trace_deliveries_settle:
  assumes "delivering s = Some (n, targets)"
  shows "trace (deliveries_settle net s) = trace s @ settlements net n targets @
     (case queue s of
        [] \<Rightarrow> (case drain_owner s of None \<Rightarrow> [] | Some q \<Rightarrow> [Emitted ''notification'' q, Resolves q])
      | m # rest \<Rightarrow> concat (map (\<lambda>c. invoke c m) (receivers m s)))"
  using assms
  by (simp add: deliveries_settle_def trace_drain_next settlements_def receivers_def
      split: list.splits option.splits)

lemma trace_step_grows: "\<exists>X. trace (step_n net e s) = trace s @ X"
proof (cases e)
  case (Send now payload)
  show ?thesis
  proof (cases "processing_n s")
    case True
    then show ?thesis using Send by (simp add: sendNotification_busy)
  next
    case False
    then show ?thesis using Send by (simp add: sendNotification_def Let_def trace_drain_next)
  qed
next
  case DeliveriesSettle
  show ?thesis
  proof (cases "delivering s")
    case None
    then show ?thesis using DeliveriesSettle by (simp add: deliveries_settle_def)
  next
    case (Some x)
    obtain n targets where "x = (n, targets)" by (cases x)
    with Some have "delivering s = Some (n, targets)" by simp
    from trace_deliveries_settle[OF this, of net] show ?thesis using DeliveriesSettle by simp
  qed
qed (simp_all add: addChannel_def removeChannel_def clearQueue_def)

lemma trace_run_grows: "\<exists>X. trace (run_n net evs s) = trace s @ X"
proof (induction evs arbitrary: s)
  case Nil
  then show ?case by (simp add: run_n_Nil)
next
  case (Cons e evs)
  obtain X where X: "trace (step_n net e s) = trace s @ X" using trace_step_grows by blast
  obtain Y where "trace (run_n net evs (step_n net e s)) = trace (step_n net e s) @ Y"
    using Cons.IH by blast
  then show ?case by (simp add: run_n_Cons X)
qed

lemma delivery_pending:
  assumes "delivering s = Some (n, targets)" and "drain_owner s = Some q" and "processing_n s"
    and "DeliveriesSettle \<notin> set evs"
  shows "trace (run_n net evs s) = trace s @ returns (sent evs)
       \<and> delivering (run_n net evs s) = Some (n, targets)
       \<and> drain_owner (run_n net evs s) = Some q
       \<and> processing_n (run_n net evs s)"
  using assms
proof (induction evs arbitrary: s)
  case Nil
  then show ?case by (simp add: run_n_Nil)
next
  case (Cons e evs)
  have rest: "DeliveriesSettle \<notin> set evs" and ne: "e \<noteq> DeliveriesSettle" using Cons.prems(4) by auto
  show ?case
  proof (cases e)
    case (Send now payload)
    let ?s' = "sendNotification now payload s"
    have s': "?s' = s\<lparr>queue := queue s @ [stamped now payload],
        trace := trace s @ [Emitted ''notification'' (stamped now payload), Resolves (stamped now payload)]\<rparr>"
      using Cons.prems(3) by (rule sendNotification_busy)
    have "delivering ?s' = Some (n, targets)" "drain_owner ?s' = Some q" "processing_n ?s'"
      using Cons.prems by (simp_all add: s')
    from Cons.IH[OF this rest] show ?thesis
      using Send by (simp add: run_n_Cons s')
  next
    case DeliveriesSettle
    then show ?thesis using ne by simp
  next
    case (AddChannel channel)
    have "delivering (addChannel channel s) = Some (n, targets)" "drain_owner (addChannel channel s) = Some q"
      "processing_n (addChannel channel s)"
      using Cons.prems by (simp_all add: addChannel_def)
    from Cons.IH[OF this rest] show ?thesis
      using AddChannel by (simp add: run_n_Cons addChannel_def)
  next
    case (RemoveChannel channelId)
    have "delivering (removeChannel channelId s) = Some (n, targets)"
      "drain_owner (removeChannel channelId s) = Some q" "processing_n (removeChannel channelId s)"
      using Cons.prems by (simp_all add: removeChannel_def)
    from Cons.IH[OF this rest] show ?thesis
      using RemoveChannel by (simp add: run_n_Cons removeChannel_def)
  next
    case ClearQueue
    have "delivering (clearQueue s) = Some (n, targets)" "drain_owner (clearQueue s) = Some q"
      "processing_n (clearQueue s)"
      using Cons.prems by (simp_all add: clearQueue_def)
    from Cons.IH[OF this rest] show ?thesis
      using ClearQueue by (simp add: run_n_Cons clearQueue_def)
  qed
qed

lemma delivery_settles:
  assumes "delivering s = Some (n, targets)" and "drain_owner s = Some q" and "processing_n s"
    and "DeliveriesSettle \<notin> set evs1"
  shows "\<exists>Z. trace (run_n net (evs1 @ DeliveriesSettle # evs2) s)
           = trace s @ returns (sent evs1) @ settlements net n targets @ Z"
proof -
  let ?s1 = "run_n net evs1 s"
  from delivery_pending[OF assms, of net]
  have t: "trace ?s1 = trace s @ returns (sent evs1)" and d: "delivering ?s1 = Some (n, targets)"
    by simp_all
  obtain Y where Y: "trace (deliveries_settle net ?s1) = trace ?s1 @ settlements net n targets @ Y"
    using trace_deliveries_settle[OF d, of net] by blast
  obtain X where "trace (run_n net evs2 (deliveries_settle net ?s1)) = trace (deliveries_settle net ?s1) @ X"
    using trace_run_grows by blast
  then have "trace (run_n net (evs1 @ DeliveriesSettle # evs2) s)
      = trace s @ returns (sent evs1) @ settlements net n targets @ (Y @ X)"
    by (simp add: run_n_append run_n_Cons Y t)
  then show ?thesis by blast
qed

text \<open>
  Claim C4, as stated, fails: a notification sent while another is being delivered is only put
  into the queue, and the promise of its \<open>sendNotification\<close> resolves before any delivery
  strategy is invoked for it; the drain under way delivers it afterwards.
\<close>

theorem C4_counterexample:
  "processing_n (run_n (\<lambda>url n. Status 200) [Send 100 (proposal ''a'')] (constructor_n None))
   \<and> trace (run_n (\<lambda>url n. Status 200) two_sends (constructor_n None)) =
      [Invoked ''websocket'' (stamped 100 (proposal ''a'')),
       Emitted ''websocket'' (stamped 100 (proposal ''a'')),
       Emitted ''notification'' (stamped 101 (proposal ''b'')),
       Resolves (stamped 101 (proposal ''b'')),
       Settled ''websocket'' (stamped 100 (proposal ''a'')) True,
       Invoked ''websocket'' (stamped 101 (proposal ''b'')),
       Emitted ''websocket'' (stamped 101 (proposal ''b'')),
       Settled ''websocket'' (stamped 101 (proposal ''b'')) True,
       Emitted ''notification'' (stamped 100 (proposal ''a'')),
       Resolves (stamped 100 (proposal ''a''))]"
  by (simp add: two_sends_def eval_defs_n)

text \<open>
  Claim C4, amended. In any state the service can reach in which no drain is under way, a call
  of \<open>sendNotification\<close> invokes the delivery strategy of exactly the enabled channels whose
  filters, if any, include the type of the payload, in the order of the map, and is suspended.
  Whatever is called meanwhile (further sends, changes of the channels, \<open>clearQueue\<close>), until
  the deliveries settle the call has not returned and nothing is logged but the returns of the
  calls made meanwhile; and when the deliveries settle, each of them settles, as a success or
  as a failure, whatever the others do, before anything else happens. A settling step logs
  the settlements first and lets the call that started the drain return only when the queue
  is empty; with no other call meanwhile, the trace of an awaited call is invocations,
  settlements, the notification event, the return. When a drain is under way, the call puts
  the payload into the queue, emits the event and returns at once, without waiting for the
  delivery. No step of the service ever invokes a delivery strategy for a channel that is
  disabled or whose filters exclude the type of the notification.
\<close>

theorem C4_resolves_after_settling_unless_draining:
  assumes "s = run_n net0 evs (constructor_n env)"
  shows "(\<not> processing_n s \<longrightarrow>
      trace (sendNotification_awaited net now p s) =
        trace s
        @ concat (map (\<lambda>c. invoke c (stamped now p))
            (filter (\<lambda>c. receives (snd c) (stamped now p)) (channels s)))
        @ map (\<lambda>c. Settled (fst c) (stamped now p) (delivered net (snd c) (stamped now p)))
            (filter (\<lambda>c. receives (snd c) (stamped now p)) (channels s))
        @ [Emitted ''notification'' (stamped now p), Resolves (stamped now p)])
   \<and> (processing_n s \<longrightarrow>
        sendNotification now p s =
          s\<lparr>queue := queue s @ [stamped now p],
            trace := trace s @ [Emitted ''notification'' (stamped now p), Resolves (stamped now p)]\<rparr>)
   \<and> (\<forall>cid q. Invoked cid q \<in> set (trace (sendNotification now p s)) \<longrightarrow>
         Invoked cid q \<in> set (trace s) \<or> (\<exists>ch. (cid, ch) \<in> set (channels s) \<and> receives ch q))
   \<and> (\<forall>cid q. Invoked cid q \<in> set (trace (deliveries_settle net s)) \<longrightarrow>
         Invoked cid q \<in> set (trace s) \<or> (\<exists>ch. (cid, ch) \<in> set (channels s) \<and> receives ch q))
   \<and> (\<not> processing_n s \<longrightarrow>
         trace (sendNotification now p s)
           = trace s @ concat (map (\<lambda>c. invoke c (stamped now p)) (receivers (stamped now p) s))
         \<and> drain_owner (sendNotification now p s) = Some (stamped now p)
         \<and> delivering (sendNotification now p s) = Some (stamped now p, receivers (stamped now p) s)
         \<and> (\<forall>evs1. DeliveriesSettle \<notin> set evs1 \<longrightarrow>
               trace (run_n net evs1 (sendNotification now p s))
                 = trace (sendNotification now p s) @ returns (sent evs1)
               \<and> drain_owner (run_n net evs1 (sendNotification now p s)) = Some (stamped now p)
               \<and> delivering (run_n net evs1 (sendNotification now p s))
                   = Some (stamped now p, receivers (stamped now p) s))
         \<and> (\<forall>evs1 evs2. DeliveriesSettle \<notin> set evs1 \<longrightarrow>
               (\<exists>Z. trace (run_n net (evs1 @ DeliveriesSettle # evs2) (sendNotification now p s))
                  = trace (sendNotification now p s) @ returns (sent evs1)
                    @ settlements net (stamped now p) (receivers (stamped now p) s) @ Z)))
   \<and> (\<forall>n targets. delivering s = Some (n, targets) \<longrightarrow>
         trace (deliveries_settle net s) = trace s @ settlements net n targets @
           (case queue s of
              [] \<Rightarrow> (case drain_owner s of
                       None \<Rightarrow> []
                     | Some q \<Rightarrow> [Emitted ''notification'' q, Resolves q])
            | m # rest \<Rightarrow> concat (map (\<lambda>c. invoke c m) (receivers m s))))"
proof -
  have rest: "at_rest s" unfolding assms by (rule at_rest_run)
  have c1: "trace (sendNotification_awaited net now p s) =
        trace s
        @ concat (map (\<lambda>c. invoke c (stamped now p))
            (filter (\<lambda>c. receives (snd c) (stamped now p)) (channels s)))
        @ map (\<lambda>c. Settled (fst c) (stamped now p) (delivered net (snd c) (stamped now p)))
            (filter (\<lambda>c. receives (snd c) (stamped now p)) (channels s))
        @ [Emitted ''notification'' (stamped now p), Resolves (stamped now p)]"
    if "\<not> processing_n s"
    using that rest by (simp add: at_rest_def sendNotification_awaited_idle)
  have c5: "trace (sendNotification now p s)
           = trace s @ concat (map (\<lambda>c. invoke c (stamped now p)) (receivers (stamped now p) s))
         \<and> drain_owner (sendNotification now p s) = Some (stamped now p)
         \<and> delivering (sendNotification now p s) = Some (stamped now p, receivers (stamped now p) s)
         \<and> (\<forall>evs1. DeliveriesSettle \<notin> set evs1 \<longrightarrow>
               trace (run_n net evs1 (sendNotification now p s))
                 = trace (sendNotification now p s) @ returns (sent evs1)
               \<and> drain_owner (run_n net evs1 (sendNotification now p s)) = Some (stamped now p)
               \<and> delivering (run_n net evs1 (sendNotification now p s))
                   = Some (stamped now p, receivers (stamped now p) s))
         \<and> (\<forall>evs1 evs2. DeliveriesSettle \<notin> set evs1 \<longrightarrow>
               (\<exists>Z. trace (run_n net (evs1 @ DeliveriesSettle # evs2) (sendNotification now p s))
                  = trace (sendNotification now p s) @ returns (sent evs1)
                    @ settlements net (stamped now p) (receivers (stamped now p) s) @ Z))"
    if np: "\<not> processing_n s"
  proof -
    let ?s1 = "sendNotification now p s"
    from np rest have q: "queue s = []" by (simp add: at_rest_def)
    have d: "delivering ?s1 = Some (stamped now p, receivers (stamped now p) s)"
      and o: "drain_owner ?s1 = Some (stamped now p)" and pr: "processing_n ?s1"
      and t: "trace ?s1 = trace s @ concat (map (\<lambda>c. invoke c (stamped now p)) (receivers (stamped now p) s))"
      by (simp_all add: sendNotification_idle[OF np q] receivers_def)
    show ?thesis
      using delivery_pending[OF d o pr, of _ net] delivery_settles[OF d o pr, of _ net] d o t
      by (intro conjI allI impI) blast+
  qed
  show ?thesis
    using c1 c5 sendNotification_busy[of s now p]
      sendNotification_invokes[of _ _ now p s] deliveries_settle_invokes[of _ _ net s]
      trace_deliveries_settle[of s _ _ net]
    by (intro conjI allI impI) blast+
qed

theorem C4_witness:
  "\<not> processing_n four_channels
   \<and> trace (sendNotification_awaited (\<lambda>url n. Status 500) 100 request four_channels) =
       [Invoked ''websocket'' (stamped 100 request), Emitted ''websocket'' (stamped 100 request),
        Invoked ''webhook'' (stamped 100 request),
        Settled ''websocket'' (stamped 100 request) True,
        Settled ''webhook'' (stamped 100 request) False,
        Emitted ''notification'' (stamped 100 request), Resolves (stamped 100 request)]
   \<and> processing_n draining
   \<and> queue (sendNotification 101 (proposal ''b'') draining) = [stamped 101 (proposal ''b'')]
   \<and> trace (sendNotification 101 (proposal ''b'') draining) =
       [Invoked ''websocket'' (stamped 100 (proposal ''a'')),
        Emitted ''websocket'' (stamped 100 (proposal ''a'')),
        Emitted ''notification'' (stamped 101 (proposal ''b'')),
        Resolves (stamped 101 (proposal ''b''))]
   \<and> Invoked ''webhook'' (stamped 100 request) \<in> set (trace (sendNotification 100 request four_channels))
   \<and> (\<exists>ch. (''webhook'', ch) \<in> set (channels four_channels) \<and> receives ch (stamped 100 request))
   \<and> DeliveriesSettle \<notin> set meanwhile
   \<and> drain_owner (run_n (\<lambda>url n. Status 500) meanwhile (sendNotification 100 request four_channels))
        = Some (stamped 100 request)
   \<and> trace (run_n (\<lambda>url n. Status 500) (meanwhile @ [DeliveriesSettle])
        (sendNotification 100 request four_channels)) =
       [Invoked ''websocket'' (stamped 100 request), Emitted ''websocket'' (stamped 100 request),
        Invoked ''webhook'' (stamped 100 request),
        Emitted ''notification'' (stamped 101 (proposal ''b'')), Resolves (stamped 101 (proposal ''b'')),
        Emitted ''notification'' (stamped 102 (proposal ''c'')), Resolves (stamped 102 (proposal ''c'')),
        Settled ''websocket'' (stamped 100 request) True,
        Settled ''webhook'' (stamped 100 request) False,
        Invoked ''websocket'' (stamped 102 (proposal ''c'')),
        Emitted ''websocket'' (stamped 102 (proposal ''c'')),
        Invoked ''webhook'' (stamped 102 (proposal ''c''))]
   \<and> (\<exists>Z. trace (run_n (\<lambda>url n. Status 500) (meanwhile @ [DeliveriesSettle])
          (sendNotification 100 request four_channels)) =
        trace (sendNotification 100 request four_channels) @ returns (sent meanwhile)
        @ settlements (\<lambda>url n. Status 500) (stamped 100 request) (receivers (stamped 100 request) four_channels)
        @ Z)"
proof -
  have np: "\<not> processing_n four_channels"
    by (simp add: four_channels_def eval_defs_n)
  have p: "processing_n draining"
    by (simp add: draining_def eval_defs_n)
  have tr0: "trace four_channels = []" and tr1: "trace draining =
      [Invoked ''websocket'' (stamped 100 (proposal ''a'')),
       Emitted ''websocket'' (stamped 100 (proposal ''a''))]" and q1: "queue draining = []"
    by (simp_all add: four_channels_def draining_def eval_defs_n)
  have inv: "Invoked ''webhook'' (stamped 100 request) \<in> set (trace (sendNotification 100 request four_channels))"
    by (simp add: four_channels_def request_def eval_defs_n)
  have nd: "DeliveriesSettle \<notin> set meanwhile" by (simp add: meanwhile_def)
  note a = C4_resolves_after_settling_unless_draining[OF four_channels_def, of "\<lambda>url n. Status 500" 100 request]
  note b = C4_resolves_after_settling_unless_draining[OF draining_def, of "\<lambda>url n. Status 500" 101 "proposal ''b''"]
  from a[THEN conjunct1, rule_format, OF np] have "trace (sendNotification_awaited (\<lambda>url n. Status 500) 100 request four_channels) =
        trace four_channels
        @ concat (map (\<lambda>c. invoke c (stamped 100 request))
            (filter (\<lambda>c. receives (snd c) (stamped 100 request)) (channels four_channels)))
        @ map (\<lambda>c. Settled (fst c) (stamped 100 request) (delivered (\<lambda>url n. Status 500) (snd c) (stamped 100 request)))
            (filter (\<lambda>c. receives (snd c) (stamped 100 request)) (channels four_channels))
        @ [Emitted ''notification'' (stamped 100 request), Resolves (stamped 100 request)]" .
  moreover have "channels four_channels =
      [(''websocket'', websocket_channel), (''webhook'', webhook_channel ''http://hook''),
       (''audit'', \<lparr> id_ch = ''audit'', type_ch = email, endpoint = None, enabled = True,
                   filters = Some [session_delete] \<rparr>),
       (''muted'', \<lparr> id_ch = ''muted'', type_ch = push, endpoint = None, enabled = False,
                   filters = None \<rparr>)]"
    by (simp add: four_channels_def websocket_channel_def webhook_channel_def eval_defs_n)
  ultimately have t: "trace (sendNotification_awaited (\<lambda>url n. Status 500) 100 request four_channels) =
       [Invoked ''websocket'' (stamped 100 request), Emitted ''websocket'' (stamped 100 request),
        Invoked ''webhook'' (stamped 100 request),
        Settled ''websocket'' (stamped 100 request) True,
        Settled ''webhook'' (stamped 100 request) False,
        Emitted ''notification'' (stamped 100 request), Resolves (stamped 100 request)]"
    by (simp add: tr0 receives_def invoke_def delivered_def websocket_channel_def webhook_channel_def
        stamped_def request_def)
  from b[THEN conjunct2, THEN conjunct1, rule_format, OF p] have "sendNotification 101 (proposal ''b'') draining =
          draining\<lparr>queue := queue draining @ [stamped 101 (proposal ''b'')],
            trace := trace draining @ [Emitted ''notification'' (stamped 101 (proposal ''b'')),
              Resolves (stamped 101 (proposal ''b''))]\<rparr>" .
  then have s: "queue (sendNotification 101 (proposal ''b'') draining) = [stamped 101 (proposal ''b'')]"
    "trace (sendNotification 101 (proposal ''b'') draining) =
       [Invoked ''websocket'' (stamped 100 (proposal ''a'')),
        Emitted ''websocket'' (stamped 100 (proposal ''a'')),
        Emitted ''notification'' (stamped 101 (proposal ''b'')),
        Resolves (stamped 101 (proposal ''b''))]"
    by (simp_all add: tr1 q1)
  from a[THEN conjunct2, THEN conjunct2, THEN conjunct1, rule_format, OF inv]
  have e: "\<exists>ch. (''webhook'', ch) \<in> set (channels four_channels) \<and> receives ch (stamped 100 request)"
    by (simp add: tr0)
  note idle = a[THEN conjunct2, THEN conjunct2, THEN conjunct2, THEN conjunct2, THEN conjunct1,
      rule_format, OF np]
  from idle[THEN conjunct2, THEN conjunct2, THEN conjunct2, THEN conjunct1, rule_format, OF nd]
  have o: "drain_owner (run_n (\<lambda>url n. Status 500) meanwhile (sendNotification 100 request four_channels))
        = Some (stamped 100 request)"
    by (elim conjE)
  from idle[THEN conjunct2, THEN conjunct2, THEN conjunct2, THEN conjunct2, rule_format, OF nd, of "[]"]
  have z: "\<exists>Z. trace (run_n (\<lambda>url n. Status 500) (meanwhile @ [DeliveriesSettle])
          (sendNotification 100 request four_channels)) =
        trace (sendNotification 100 request four_channels) @ returns (sent meanwhile)
        @ settlements (\<lambda>url n. Status 500) (stamped 100 request) (receivers (stamped 100 request) four_channels)
        @ Z" .
  have full: "trace (run_n (\<lambda>url n. Status 500) (meanwhile @ [DeliveriesSettle])
        (sendNotification 100 request four_channels)) =
       [Invoked ''websocket'' (stamped 100 request), Emitted ''websocket'' (stamped 100 request),
        Invoked ''webhook'' (stamped 100 request),
        Emitted ''notification'' (stamped 101 (proposal ''b'')), Resolves (stamped 101 (proposal ''b'')),
        Emitted ''notification'' (stamped 102 (proposal ''c'')), Resolves (stamped 102 (proposal ''c'')),
        Settled ''websocket'' (stamped 100 request) True,
        Settled ''webhook'' (stamped 100 request) False,
        Invoked ''websocket'' (stamped 102 (proposal ''c'')),
        Emitted ''websocket'' (stamped 102 (proposal ''c'')),
        Invoked ''webhook'' (stamped 102 (proposal ''c''))]"
    by (simp add: meanwhile_def four_channels_def request_def eval_defs_n)
  show ?thesis using np t p s inv e nd o full z by (intro conjI)
qed

section \<open>NotificationService: the default channels\<close>

text \<open>
  Claim C10, as stated, fails: with \<^verbatim>\<open>WEBHOOK_URL\<close> set to the empty string the variable is
  set, but the value is falsy and there is no webhook channel.
\<close>

theorem C10_counterexample:
  "map fst (channels (constructor_n (Some []) :: unit NotificationService)) = [''websocket'']"
  by (simp add: eval_defs_n)

lemma receives_websocket_channel [simp]: "receives websocket_channel n"
  by (simp add: receives_def websocket_channel_def)

lemma invoke_websocket:
  "(''websocket'', websocket_channel) \<in> set targets \<Longrightarrow>
     Invoked ''websocket'' n \<in> set (concat (map (\<lambda>c. invoke c n) targets))"
  unfolding Invoked_in_invoke by force

lemma accounted_drain_next:
  assumes "(''websocket'', websocket_channel) \<in> set (channels s)"
    and "processing_n s" and "delivering s = None"
    and "\<forall>p\<in>set ps. p \<in> set (queue s) \<or> Invoked ''websocket'' p \<in> set (trace s)"
  shows "accounted ps (drain_next s)"
proof (cases "queue s")
  case Nil
  then show ?thesis
    using assms by (auto simp: accounted_def drain_next_def Let_def send_returns_def split: option.splits)
next
  case (Cons n rest)
  let ?targets = "filter (\<lambda>c. receives (snd c) n) (channels s)"
  have d: "drain_next s = s\<lparr>queue := rest,
                trace := trace s @ concat (map (\<lambda>c. invoke c n) ?targets),
                delivering := Some (n, ?targets)\<rparr>"
    using Cons by (simp add: drain_next_def Let_def)
  have "(''websocket'', websocket_channel) \<in> set ?targets" using assms(1) by simp
  then have i: "Invoked ''websocket'' n \<in> set (concat (map (\<lambda>c. invoke c n) ?targets))"
    by (rule invoke_websocket)
  have "p \<in> set rest \<or> Invoked ''websocket'' p \<in> set (trace s) \<union> set (concat (map (\<lambda>c. invoke c n) ?targets))"
    if "p \<in> set ps" for p
    using assms(4) that i Cons by auto
  then show ?thesis
    using assms(1,2) unfolding d accounted_def by simp
qed

lemma accounted_send:
  assumes "accounted ps s"
  shows "accounted (ps @ [stamped now p]) (sendNotification now p s)"
proof (cases "processing_n s")
  case True
  then show ?thesis
    using assms by (auto simp: sendNotification_busy accounted_def)
next
  case False
  let ?s1 = "s\<lparr>queue := queue s @ [stamped now p], processing_n := True,
        drain_owner := Some (stamped now p)\<rparr>"
  have e: "sendNotification now p s = drain_next ?s1"
    using False by (simp add: sendNotification_def Let_def)
  have "accounted (ps @ [stamped now p]) (drain_next ?s1)"
    by (rule accounted_drain_next) (use assms False in \<open>auto simp: accounted_def\<close>)
  then show ?thesis by (simp add: e)
qed

lemma accounted_settle:
  assumes "accounted ps s"
  shows "accounted ps (deliveries_settle net s)"
proof (cases "delivering s")
  case None
  then show ?thesis using assms by (simp add: deliveries_settle_def)
next
  case (Some x)
  obtain n targets where x: "x = (n, targets)" by (cases x)
  let ?s1 = "s\<lparr>trace := trace s @ map (\<lambda>c. Settled (fst c) n (delivered net (snd c) n)) targets,
               delivering := None\<rparr>"
  have e: "deliveries_settle net s = drain_next ?s1"
    using Some x by (simp add: deliveries_settle_def)
  have "processing_n s" using Some assms by (auto simp: accounted_def)
  then have "accounted ps (drain_next ?s1)"
    by (intro accounted_drain_next) (use assms in \<open>auto simp: accounted_def\<close>)
  then show ?thesis by (simp add: e)
qed

lemma accounted_mono: "accounted (p # ps) s \<Longrightarrow> accounted ps s"
  by (simp add: accounted_def)

lemma accounted_run:
  assumes "only_sends evs" and "accounted ps s"
  shows "accounted (ps @ sent evs) (run_n net evs s)"
  using assms
proof (induction evs arbitrary: ps s rule: only_sends.induct)
  case 1
  then show ?case by (simp add: run_n_def)
next
  case (2 now payload evs)
  from 2 have "accounted ((ps @ [stamped now payload]) @ sent evs)
      (run_n net evs (sendNotification now payload s))"
    by (intro "2.IH" accounted_send) simp_all
  then show ?case by (simp add: run_n_def)
next
  case (3 evs)
  from 3 have "accounted (ps @ sent evs) (run_n net evs (deliveries_settle net s))"
    by (intro "3.IH" accounted_settle) simp_all
  then show ?case by (simp add: run_n_def)
qed simp_all

lemma accounted_settle_all:
  "accounted ps s \<Longrightarrow> accounted ps (settle_all net s) \<and> delivering (settle_all net s) = None"
proof (induction net s rule: settle_all.induct)
  case (1 net s)
  show ?case
  proof (cases "delivering s")
    case None
    then show ?thesis using "1.prems" by (simp add: settle_all_idle)
  next
    case (Some x)
    have "accounted ps (deliveries_settle net s)" using "1.prems" by (rule accounted_settle)
    from "1.IH"[OF Some this] show ?thesis by (simp add: settle_all_step[OF Some])
  qed
qed

lemma accounted_constructor_n: "accounted [] (constructor_n env)"
  by (simp add: accounted_def constructor_n_idle channels_constructor_n)

lemma all_sent_delivered:
  assumes "only_sends evs" and "p \<in> set (sent evs)"
  shows "Invoked ''websocket'' p \<in> set (trace (settle_all net (run_n net evs (constructor_n env))))"
proof -
  let ?s = "settle_all net (run_n net evs (constructor_n env))"
  have "accounted ([] @ sent evs) (run_n net evs (constructor_n env))"
    using assms(1) accounted_constructor_n by (rule accounted_run)
  then have a: "accounted (sent evs) ?s" and "delivering ?s = None"
    using accounted_settle_all by auto
  then have "queue ?s = []" by (auto simp: accounted_def)
  with a assms(2) show ?thesis by (auto simp: accounted_def)
qed

text \<open>
  Claim C10, amended. A new service has the enabled, unfiltered channel \<open>websocket\<close> of kind
  websocket, and a channel \<open>webhook\<close> exactly when \<^verbatim>\<open>WEBHOOK_URL\<close> is set to a string that
  is not empty; and it has no other channel. A notification sent to a new service is delivered
  through the websocket strategy (and through the webhook, if there is one) before the promise
  resolves; and when the caller does nothing but send notifications, the websocket strategy
  has been invoked for every notification enqueued once the deliveries have settled.
\<close>

theorem C10_default_channels:
  "channels (constructor_n env :: 'a NotificationService) = (''websocket'', websocket_channel) # webhook_of env
   \<and> id_ch websocket_channel = ''websocket'' \<and> type_ch websocket_channel = websocket
   \<and> enabled websocket_channel \<and> filters websocket_channel = None
   \<and> (''webhook'' \<in> fst ` set (channels (constructor_n env :: 'a NotificationService))
        \<longleftrightarrow> (\<exists>url. env = Some url \<and> url \<noteq> []))
   \<and> trace (sendNotification_awaited net now (p :: 'a NotificationPayload) (constructor_n env)) =
       [Invoked ''websocket'' (stamped now p), Emitted ''websocket'' (stamped now p)]
       @ map (\<lambda>c. Invoked (fst c) (stamped now p)) (webhook_of env)
       @ [Settled ''websocket'' (stamped now p) True]
       @ map (\<lambda>c. Settled (fst c) (stamped now p) (delivered net (snd c) (stamped now p))) (webhook_of env)
       @ [Emitted ''notification'' (stamped now p), Resolves (stamped now p)]
   \<and> (only_sends evs \<longrightarrow>
        (\<forall>q\<in>set (sent evs).
           Invoked ''websocket'' q \<in> set (trace (settle_all net (run_n net evs (constructor_n env))))))"
proof -
  have c: "channels (constructor_n env :: 'a NotificationService) = (''websocket'', websocket_channel) # webhook_of env"
    by (simp add: channels_constructor_n webhook_of_def)
  have w: "''webhook'' \<in> fst ` set (channels (constructor_n env :: 'a NotificationService))
        \<longleftrightarrow> (\<exists>url. env = Some url \<and> url \<noteq> [])"
  proof (cases env)
    case None
    then show ?thesis by (simp add: channels_constructor_n)
  next
    case (Some url)
    then show ?thesis by (cases "url = []") (simp_all add: channels_constructor_n)
  qed
  have r: "filter (\<lambda>c. receives (snd c) (stamped now p)) ((''websocket'', websocket_channel) # webhook_of env)
      = (''websocket'', websocket_channel) # webhook_of env"
    by (simp add: receives_def websocket_channel_def webhook_channel_def webhook_of_def split: option.splits)
  have i: "concat (map (\<lambda>c. invoke c (stamped now p)) (webhook_of env)) = map (\<lambda>c. Invoked (fst c) (stamped now p)) (webhook_of env)"
    by (simp add: webhook_of_def invoke_def webhook_channel_def split: option.splits)
  have iw: "invoke (''websocket'', websocket_channel) (stamped now p) =
      [Invoked ''websocket'' (stamped now p), Emitted ''websocket'' (stamped now p)]"
    and dw: "delivered net websocket_channel (stamped now p)"
    by (simp_all add: invoke_def delivered_def websocket_channel_def)
  have "trace (sendNotification_awaited net now p (constructor_n env)) =
       concat (map (\<lambda>c. invoke c (stamped now p))
            (filter (\<lambda>c. receives (snd c) (stamped now p)) (channels (constructor_n env :: 'a NotificationService))))
        @ map (\<lambda>c. Settled (fst c) (stamped now p) (delivered net (snd c) (stamped now p)))
            (filter (\<lambda>c. receives (snd c) (stamped now p)) (channels (constructor_n env :: 'a NotificationService)))
        @ [Emitted ''notification'' (stamped now p), Resolves (stamped now p)]"
    by (simp add: sendNotification_awaited_idle constructor_n_idle)
  then have t: "trace (sendNotification_awaited net now p (constructor_n env)) =
       [Invoked ''websocket'' (stamped now p), Emitted ''websocket'' (stamped now p)]
       @ map (\<lambda>c. Invoked (fst c) (stamped now p)) (webhook_of env)
       @ [Settled ''websocket'' (stamped now p) True]
       @ map (\<lambda>c. Settled (fst c) (stamped now p) (delivered net (snd c) (stamped now p))) (webhook_of env)
       @ [Emitted ''notification'' (stamped now p), Resolves (stamped now p)]"
    unfolding c r by (simp add: iw dw i)
  have a: "only_sends evs \<longrightarrow>
        (\<forall>q\<in>set (sent evs).
           Invoked ''websocket'' q \<in> set (trace (settle_all net (run_n net evs (constructor_n env)))))"
    using all_sent_delivered[of evs _ net env] by blast
  show ?thesis
    by (intro conjI c w t a) (simp_all add: websocket_channel_def)
qed

theorem C10_witness:
  "only_sends three_sends
   \<and> sent three_sends = [stamped 100 (proposal ''a''), stamped 101 (proposal ''b''), stamped 102 (proposal ''c'')]
   \<and> list_all (\<lambda>q. Invoked ''websocket'' q \<in> set (trace (settle_all (\<lambda>url n. TransportError)
         (run_n (\<lambda>url n. TransportError) three_sends (constructor_n (Some ''http://hook''))))))
       (sent three_sends)
   \<and> map fst (channels (constructor_n (Some ''http://hook'') :: unit NotificationService)) = [''websocket'', ''webhook'']"
proof -
  have o: "only_sends three_sends" by (simp add: three_sends_def)
  have s: "sent three_sends = [stamped 100 (proposal ''a''), stamped 101 (proposal ''b''), stamped 102 (proposal ''c'')]"
    by (simp add: three_sends_def)
  note main = C10_default_channels[of "Some ''http://hook''" "\<lambda>url n. TransportError" 0 "proposal ''a''" three_sends]
  from main o have "\<forall>q\<in>set (sent three_sends).
     Invoked ''websocket'' q \<in> set (trace (settle_all (\<lambda>url n. TransportError)
         (run_n (\<lambda>url n. TransportError) three_sends (constructor_n (Some ''http://hook'')))))"
    by (elim conjE) simp
  then have l: "list_all (\<lambda>q. Invoked ''websocket'' q \<in> set (trace (settle_all (\<lambda>url n. TransportError)
         (run_n (\<lambda>url n. TransportError) three_sends (constructor_n (Some ''http://hook''))))))
       (sent three_sends)"
    by (simp only: list_all_iff)
  from main have "channels (constructor_n (Some ''http://hook'') :: unit NotificationService)
      = (''websocket'', websocket_channel) # webhook_of (Some ''http://hook'')"
    by (elim conjE)
  then have c: "map fst (channels (constructor_n (Some ''http://hook'') :: unit NotificationService)) = [''websocket'', ''webhook'']"
    by (simp add: webhook_of_def)
  show ?thesis by (intro conjI o s l c)
qed

end
